theory Spec2Isabelle
  imports Main
begin

section \<open>The event channel of \<^verbatim>\<open>newEventChan\<close>\<close>

text \<open>
  \<^verbatim>\<open>newEventChan\<close> (hotkey.go, lines 124-157) makes two unbuffered Go channels
  \<^verbatim>\<open>in\<close> and \<open>out\<close> and starts one goroutine, the worker, that owns a local slice
  \<^verbatim>\<open>q\<close>. An unbuffered channel transfers a value only when sender and receiver meet,
  so the worker is described by the statement it is blocked at, together with the
  value of \<^verbatim>\<open>q\<close> there:

  \<^item> \<open>OuterRecv q\<close>: at \<^verbatim>\<open>e, ok := <-in\<close> of the outer loop (line 131);
  \<^item> \<open>InnerSelect q\<close>: at the \<^verbatim>\<open>select\<close> of the inner loop (line 138), ready both
    to send \<^verbatim>\<open>q[0]\<close> on \<open>out\<close> and to receive on \<^verbatim>\<open>in\<close>;
  \<^item> \<open>DrainSend es\<close>: at \<^verbatim>\<open>out <- e\<close> of the range loop (line 148); \<open>es\<close> are the
    elements of the range that are still to be sent, the first one being \<^verbatim>\<open>e\<close>;
  \<^item> \<open>Returned\<close>: after \<^verbatim>\<open>close(out); return\<close> (lines 133-134 and 150-151).

  The worker never inspects an event, so the model is polymorphic in the type of
  events; the program's own \<^verbatim>\<open>Event struct{}\<close> is the one-valued type \<open>Event\<close>.
  With a type of more than one value the order of delivery can be observed.
\<close>

datatype Event = Event

datatype 'e worker =
    OuterRecv "'e list"
  | InnerSelect "'e list"
  | DrainSend "'e list"
  | Returned

text \<open>The pair of channels with its worker. \<open>in_closed\<close> is the closed flag of the
  channel \<^verbatim>\<open>in\<close>; \<open>out\<close> is closed exactly when the worker has returned.\<close>

record 'e EventChan =
  worker :: "'e worker"
  in_closed :: bool

definition out_closed :: "'e EventChan \<Rightarrow> bool" where
  "out_closed c = (worker c = Returned)"

text \<open>The goroutine starts with \<^verbatim>\<open>var q []Event\<close> and blocks at line 131.\<close>

definition newEventChan :: "'e EventChan" where
  "newEventChan = \<lparr>worker = OuterRecv [], in_closed = False\<rparr>"

text \<open>The test \<^verbatim>\<open>for len(q) > 0\<close> of the inner loop: the worker enters the
  \<^verbatim>\<open>select\<close>, or leaves the inner loop and is back at line 131.\<close>

definition inner_loop :: "'e list \<Rightarrow> 'e worker" where
  "inner_loop q = (if length q > 0 then InnerSelect q else OuterRecv q)"

text \<open>The loop \<^verbatim>\<open>for _, e := range q { out <- e }\<close> followed by
  \<^verbatim>\<open>close(out); return\<close>.\<close>

definition drain_loop :: "'e list \<Rightarrow> 'e worker" where
  "drain_loop es = (case es of [] \<Rightarrow> Returned | _ # _ \<Rightarrow> DrainSend es)"

text \<open>The worker's receive on \<^verbatim>\<open>in\<close> completes with a value (\<^verbatim>\<open>ok\<close> is true):
  \<^verbatim>\<open>q = append(q, e)\<close>, in the outer loop (line 136) and in the \<^verbatim>\<open>select\<close>
  (line 144). \<open>None\<close>: the worker is not at a receive on \<^verbatim>\<open>in\<close>.\<close>

fun on_in_value :: "'e \<Rightarrow> 'e worker \<Rightarrow> 'e worker option" where
  "on_in_value e (OuterRecv q) = Some (inner_loop (q @ [e]))"
| "on_in_value e (InnerSelect q) = Some (inner_loop (q @ [e]))"
| "on_in_value e (DrainSend es) = None"
| "on_in_value e Returned = None"

text \<open>The worker's receive on \<^verbatim>\<open>in\<close> completes with \<^verbatim>\<open>ok\<close> false, which is what a
  closed channel gives: lines 132-135 in the outer loop, lines 147-151 in the
  \<^verbatim>\<open>select\<close>.\<close>

fun on_in_closed :: "'e worker \<Rightarrow> 'e worker option" where
  "on_in_closed (OuterRecv q) = Some Returned"
| "on_in_closed (InnerSelect q) = Some (drain_loop q)"
| "on_in_closed (DrainSend es) = None"
| "on_in_closed Returned = None"

text \<open>The worker's send on \<open>out\<close> completes, handing over one event: the case
  \<^verbatim>\<open>out <- q[0]\<close> of the \<^verbatim>\<open>select\<close> followed by \<^verbatim>\<open>q = q[1:]\<close> and the loop test,
  or \<^verbatim>\<open>out <- e\<close> of the range loop. \<open>None\<close>: the worker offers nothing on \<open>out\<close>.
  (\<open>InnerSelect []\<close> is not a state of the program: the \<^verbatim>\<open>select\<close> is entered
  under \<^verbatim>\<open>len(q) > 0\<close> only; see \<open>chan_inv\<close> below.)\<close>

fun on_out_send :: "'e worker \<Rightarrow> ('e \<times> 'e worker) option" where
  "on_out_send (InnerSelect (e # q)) = Some (e, inner_loop q)"
| "on_out_send (DrainSend (e # es)) = Some (e, drain_loop es)"
| "on_out_send (InnerSelect []) = None"
| "on_out_send (DrainSend []) = None"
| "on_out_send (OuterRecv q) = None"
| "on_out_send Returned = None"

subsection \<open>The operations of producer and consumer\<close>

text \<open>A channel operation completes (\<open>Done\<close>), panics as the Go runtime does, or
  cannot complete in this state (\<open>Blocked\<close>): the other side is not at the matching
  statement.\<close>

datatype fault = SendOnClosed | CloseOfClosed | CloseOfNil

datatype 'a outcome = Done 'a | Blocked | Panic fault

text \<open>What the consumer's \<^verbatim>\<open><-out\<close> yields: an event, or the closed-indication.\<close>

datatype 'e obs = Ev 'e | ClosedInd

text \<open>\<^verbatim>\<open>in <- e\<close> by the producer.\<close>

definition send :: "'e \<Rightarrow> 'e EventChan \<Rightarrow> 'e EventChan outcome" where
  "send e c =
     (if in_closed c then Panic SendOnClosed
      else case on_in_value e (worker c) of
             Some w \<Rightarrow> Done (c\<lparr>worker := w\<rparr>)
           | None \<Rightarrow> Blocked)"

text \<open>\<^verbatim>\<open>close(in)\<close> by the owner of the producer handle. It sets the flag and
  returns; the worker sees it at its next receive on \<^verbatim>\<open>in\<close>.\<close>

definition close_in :: "'e EventChan \<Rightarrow> 'e EventChan outcome" where
  "close_in c = (if in_closed c then Panic CloseOfClosed else Done (c\<lparr>in_closed := True\<rparr>))"

text \<open>The worker, scheduled while \<^verbatim>\<open>in\<close> is closed, takes the closed branch of its
  receive on \<^verbatim>\<open>in\<close>.\<close>

definition observe :: "'e EventChan \<Rightarrow> 'e EventChan outcome" where
  "observe c =
     (if in_closed c
      then case on_in_closed (worker c) of
             Some w \<Rightarrow> Done (c\<lparr>worker := w\<rparr>)
           | None \<Rightarrow> Blocked
      else Blocked)"

text \<open>\<^verbatim>\<open><-out\<close> by the consumer, meeting the worker's send or finding \<open>out\<close> closed.\<close>

definition recv :: "'e EventChan \<Rightarrow> ('e obs \<times> 'e EventChan) outcome" where
  "recv c =
     (if worker c = Returned then Done (ClosedInd, c)
      else case on_out_send (worker c) of
             Some (e, w) \<Rightarrow> Done (Ev e, c\<lparr>worker := w\<rparr>)
           | None \<Rightarrow> Blocked)"

text \<open>The consumer's \<^verbatim>\<open><-out\<close> as a blocking call: when nothing is offered, the
  worker runs (it can only take the closed branch) and the receive is tried again.
  \<open>Blocked\<close> means that the consumer stays suspended until the producer acts.\<close>

definition receive :: "'e EventChan \<Rightarrow> ('e obs \<times> 'e EventChan) outcome" where
  "receive c =
     (case recv c of
        Blocked \<Rightarrow> (case observe c of Done c' \<Rightarrow> recv c' | Blocked \<Rightarrow> Blocked | Panic f \<Rightarrow> Panic f)
      | r \<Rightarrow> r)"

subsection \<open>Schedules\<close>

text \<open>An interleaving of producer, consumer and worker is a list of completed
  steps. \<open>exec\<close> runs it and collects what the consumer observed, in order; it
  fails where a step panics or cannot complete.\<close>

datatype 'e action = Send 'e | Close | Recv | Observe

fun step :: "'e action \<Rightarrow> 'e EventChan \<Rightarrow> ('e obs list \<times> 'e EventChan) outcome" where
  "step (Send e) c = (case send e c of Done c' \<Rightarrow> Done ([], c') | Blocked \<Rightarrow> Blocked | Panic f \<Rightarrow> Panic f)"
| "step Close c = (case close_in c of Done c' \<Rightarrow> Done ([], c') | Blocked \<Rightarrow> Blocked | Panic f \<Rightarrow> Panic f)"
| "step Observe c = (case observe c of Done c' \<Rightarrow> Done ([], c') | Blocked \<Rightarrow> Blocked | Panic f \<Rightarrow> Panic f)"
| "step Recv c = (case recv c of Done (x, c') \<Rightarrow> Done ([x], c') | Blocked \<Rightarrow> Blocked | Panic f \<Rightarrow> Panic f)"

fun exec :: "'e action list \<Rightarrow> 'e EventChan \<Rightarrow> ('e obs list \<times> 'e EventChan) outcome" where
  "exec [] c = Done ([], c)"
| "exec (a # as) c =
     (case step a c of
        Done (xs, c') \<Rightarrow>
          (case exec as c' of
             Done (ys, c'') \<Rightarrow> Done (xs @ ys, c'')
           | Blocked \<Rightarrow> Blocked
           | Panic f \<Rightarrow> Panic f)
      | Blocked \<Rightarrow> Blocked
      | Panic f \<Rightarrow> Panic f)"

text \<open>The events a schedule sends, the events among the observations, and the
  events the worker still holds.\<close>

fun sends :: "'e action list \<Rightarrow> 'e list" where
  "sends [] = []"
| "sends (Send e # as) = e # sends as"
| "sends (Close # as) = sends as"
| "sends (Recv # as) = sends as"
| "sends (Observe # as) = sends as"

fun events :: "'e obs list \<Rightarrow> 'e list" where
  "events [] = []"
| "events (Ev e # xs) = e # events xs"
| "events (ClosedInd # xs) = events xs"

fun pending :: "'e worker \<Rightarrow> 'e list" where
  "pending (OuterRecv q) = q"
| "pending (InnerSelect q) = q"
| "pending (DrainSend es) = es"
| "pending Returned = []"

text \<open>The steps left once the producer side is closed: the consumer's receive
  and the worker's own.\<close>

fun is_consumer_step :: "'e action \<Rightarrow> bool" where
  "is_consumer_step Recv = True"
| "is_consumer_step Observe = True"
| "is_consumer_step (Send e) = False"
| "is_consumer_step Close = False"

text \<open>What holds of the worker between steps: line 131 is reached with an empty
  \<^verbatim>\<open>q\<close>, the \<^verbatim>\<open>select\<close> with a non-empty one, and the closed branches are taken
  only when \<^verbatim>\<open>in\<close> is closed.\<close>

definition chan_inv :: "'e EventChan \<Rightarrow> bool" where
  "chan_inv c =
     (case worker c of
        OuterRecv q \<Rightarrow> q = []
      | InnerSelect q \<Rightarrow> q \<noteq> []
      | DrainSend es \<Rightarrow> es \<noteq> [] \<and> in_closed c
      | Returned \<Rightarrow> in_closed c)"

section \<open>The Hotkey\<close>

text \<open>
  The struct \<^verbatim>\<open>Hotkey\<close> (lines 51-61). The embedded \<^verbatim>\<open>platformHotkey\<close> and the
  types \<^verbatim>\<open>Modifier\<close> and \<^verbatim>\<open>Key\<close> are declared in the platform files, which are not
  part of the sources at hand; they are the type parameters \<open>'p\<close>, \<open>'m\<close> and \<open>'k\<close>.
  A channel field holds a reference: the index, in the store of the package state,
  of the \<open>EventChan\<close> it is an end of. The send-only and the receive-only end of
  one \<^verbatim>\<open>newEventChan()\<close> carry the same index and differ by their field.
\<close>

type_synonym error = string

record ('m, 'k, 'p) Hotkey =
  platformHotkey :: 'p
  mods :: "'m list"
  key :: 'k
  keydownIn :: nat
  keydownOut :: nat
  keyupIn :: nat
  keyupOut :: nat

text \<open>The state outside the Hotkey: every event channel made so far, the state
  of the operating system's registration service (\<open>'b\<close>, outside the sources), and
  the package variable \<^verbatim>\<open>KeyMap\<close>.\<close>

record ('k, 'b) pkg =
  chans :: "Event EventChan list"
  backend :: 'b
  KeyMap :: "(string \<times> 'k) list"

text \<open>The methods \<^verbatim>\<open>hk.register()\<close> and \<^verbatim>\<open>hk.unregister()\<close> are defined in
  the platform files. Here they are parameters: each reads the Hotkey and the
  registration service, and yields its \<^verbatim>\<open>error\<close> (\<open>None\<close> for \<^verbatim>\<open>nil\<close>), the new
  \<^verbatim>\<open>platformHotkey\<close> and the new state of the service.\<close>

record ('m, 'k, 'p, 'b) platform =
  register :: "('m, 'k, 'p) Hotkey \<Rightarrow> 'b \<Rightarrow> error option \<times> 'p \<times> 'b"
  unregister :: "('m, 'k, 'p) Hotkey \<Rightarrow> 'b \<Rightarrow> error option \<times> 'p \<times> 'b"

text \<open>Sequencing of operations that may panic or block.\<close>

fun and_then :: "'a outcome \<Rightarrow> ('a \<Rightarrow> 'b outcome) \<Rightarrow> 'b outcome" where
  "and_then (Done x) f = f x"
| "and_then Blocked f = Blocked"
| "and_then (Panic e) f = Panic e"

text \<open>\<^verbatim>\<open>newEventChan()\<close> as a call: a new instance at the end of the store, and
  the two handles to it.\<close>

definition alloc_EventChan :: "('k, 'b) pkg \<Rightarrow> nat \<times> nat \<times> ('k, 'b) pkg" where
  "alloc_EventChan s = (length (chans s), length (chans s), s\<lparr>chans := chans s @ [newEventChan]\<rparr>)"

text \<open>\<^verbatim>\<open>close(ch)\<close> on a handle. A handle that refers to no channel is \<^verbatim>\<open>nil\<close>,
  and closing it panics.\<close>

definition close_chan :: "nat \<Rightarrow> ('k, 'b) pkg \<Rightarrow> ('k, 'b) pkg outcome" where
  "close_chan i s =
     (if i < length (chans s)
      then and_then (close_in (chans s ! i)) (\<lambda>c. Done (s\<lparr>chans := (chans s)[i := c]\<rparr>))
      else Panic CloseOfNil)"

text \<open>\<^verbatim>\<open>New\<close> (lines 64-85). \<open>p0\<close> is the zero value of \<^verbatim>\<open>platformHotkey\<close>. The
  finalizer set at line 78 is the function \<open>finalizer\<close> below.\<close>

definition New :: "'m list \<Rightarrow> 'k \<Rightarrow> 'p \<Rightarrow> ('k, 'b) pkg \<Rightarrow> ('m, 'k, 'p) Hotkey \<times> ('k, 'b) pkg" where
  "New ms k p0 s =
     (let (kdIn, kdOut, s1) = alloc_EventChan s;
          (kuIn, kuOut, s2) = alloc_EventChan s1
      in (\<lparr>platformHotkey = p0, mods = ms, key = k,
           keydownIn = kdIn, keydownOut = kdOut, keyupIn = kuIn, keyupOut = kuOut\<rparr>, s2))"

text \<open>\<^verbatim>\<open>Register\<close> (line 90): \<^verbatim>\<open>return hk.register()\<close>.\<close>

definition Register ::
  "('m, 'k, 'p, 'b) platform \<Rightarrow> ('m, 'k, 'p) Hotkey \<Rightarrow> ('k, 'b) pkg
     \<Rightarrow> error option \<times> ('m, 'k, 'p) Hotkey \<times> ('k, 'b) pkg" where
  "Register P hk s =
     (let (err, p, b) = register P hk (backend s)
      in (err, hk\<lparr>platformHotkey := p\<rparr>, s\<lparr>backend := b\<rparr>))"

text \<open>\<^verbatim>\<open>Keydown\<close> and \<^verbatim>\<open>Keyup\<close> (lines 93 and 96).\<close>

definition Keydown :: "('m, 'k, 'p) Hotkey \<Rightarrow> nat" where
  "Keydown hk = keydownOut hk"

definition Keyup :: "('m, 'k, 'p) Hotkey \<Rightarrow> nat" where
  "Keyup hk = keyupOut hk"

text \<open>\<^verbatim>\<open>Unregister\<close> (lines 99-111).\<close>

definition Unregister ::
  "('m, 'k, 'p, 'b) platform \<Rightarrow> ('m, 'k, 'p) Hotkey \<Rightarrow> ('k, 'b) pkg
     \<Rightarrow> (error option \<times> ('m, 'k, 'p) Hotkey \<times> ('k, 'b) pkg) outcome" where
  "Unregister P hk s =
     (let (err, p, b) = unregister P hk (backend s);
          hk1 = hk\<lparr>platformHotkey := p\<rparr>;
          s1 = s\<lparr>backend := b\<rparr>
      in case err of
           Some e \<Rightarrow> Done (Some e, hk1, s1)
         | None \<Rightarrow>
             and_then (close_chan (keydownIn hk1) s1) (\<lambda>s2.
             and_then (close_chan (keyupIn hk1) s2) (\<lambda>s3.
               let (kdIn, kdOut, s4) = alloc_EventChan s3;
                   (kuIn, kuOut, s5) = alloc_EventChan s4
               in Done (None,
                        hk1\<lparr>keydownIn := kdIn, keydownOut := kdOut,
                            keyupIn := kuIn, keyupOut := kuOut\<rparr>,
                        s5))))"

text \<open>The finalizer of lines 78-83: \<^verbatim>\<open>hk.unregister()\<close> with its error dropped,
  then the two \<^verbatim>\<open>close\<close> calls.\<close>

definition finalizer ::
  "('m, 'k, 'p, 'b) platform \<Rightarrow> ('m, 'k, 'p) Hotkey \<Rightarrow> ('k, 'b) pkg
     \<Rightarrow> (('m, 'k, 'p) Hotkey \<times> ('k, 'b) pkg) outcome" where
  "finalizer P hk s =
     (let (err, p, b) = unregister P hk (backend s);
          hk1 = hk\<lparr>platformHotkey := p\<rparr>;
          s1 = s\<lparr>backend := b\<rparr>
      in and_then (close_chan (keydownIn hk1) s1) (\<lambda>s2.
         and_then (close_chan (keyupIn hk1) s2) (\<lambda>s3.
           Done (hk1, s3))))"

text \<open>\<^verbatim>\<open>String\<close> (lines 114-120). \<open>fk\<close> and \<open>fm\<close> are \<^verbatim>\<open>fmt.Sprintf("%v", _)\<close> on a
  \<^verbatim>\<open>Key\<close> and on a \<^verbatim>\<open>Modifier\<close>; what they print depends on the declarations of
  the two types. The loop appends to \<^verbatim>\<open>s\<close> from left to right.\<close>

definition String :: "('k \<Rightarrow> string) \<Rightarrow> ('m \<Rightarrow> string) \<Rightarrow> ('m, 'k, 'p) Hotkey \<Rightarrow> string" where
  "String fk fm hk = foldl (\<lambda>s m. s @ ''+'' @ fm m) (fk (key hk)) (mods hk)"

subsection \<open>The table \<^verbatim>\<open>KeyMap\<close>\<close>

text \<open>The map literal of lines 159-228 binds each name to the constant whose Go
  identifier is that very name. The constants are declared in the platform files;
  \<open>kc n\<close> stands for the value of the constant named \<open>n\<close>.\<close>

definition key_names :: "string list" where
  "key_names =
     [''KeySpace'', ''Key1'', ''Key2'', ''Key3'', ''Key4'', ''Key5'', ''Key6'', ''Key7'',
      ''Key8'', ''Key9'', ''Key0'', ''KeyA'', ''KeyB'', ''KeyC'', ''KeyD'', ''KeyE'',
      ''KeyF'', ''KeyG'', ''KeyH'', ''KeyI'', ''KeyJ'', ''KeyK'', ''KeyL'', ''KeyM'',
      ''KeyN'', ''KeyO'', ''KeyP'', ''KeyQ'', ''KeyR'', ''KeyS'', ''KeyT'', ''KeyU'',
      ''KeyV'', ''KeyW'', ''KeyX'', ''KeyY'', ''KeyZ'',
      ''KeyReturn'', ''KeyEscape'', ''KeyDelete'', ''KeyTab'',
      ''KeyLeft'', ''KeyRight'', ''KeyUp'', ''KeyDown'',
      ''KeyF1'', ''KeyF2'', ''KeyF3'', ''KeyF4'', ''KeyF5'', ''KeyF6'', ''KeyF7'',
      ''KeyF8'', ''KeyF9'', ''KeyF10'', ''KeyF11'', ''KeyF12'', ''KeyF13'', ''KeyF14'',
      ''KeyF15'', ''KeyF16'', ''KeyF17'', ''KeyF18'', ''KeyF19'', ''KeyF20'']"

definition KeyMap_init :: "(string \<Rightarrow> 'k) \<Rightarrow> (string \<times> 'k) list" where
  "KeyMap_init kc = map (\<lambda>n. (n, kc n)) key_names"

text \<open>The package state when the program starts: no channel yet, the table
  initialised.\<close>

definition init_pkg :: "(string \<Rightarrow> 'k) \<Rightarrow> 'b \<Rightarrow> ('k, 'b) pkg" where
  "init_pkg kc b0 = \<lparr>chans = [], backend = b0, KeyMap = KeyMap_init kc\<rparr>"

text \<open>\<^verbatim>\<open>KeyMap[name]\<close> with its \<^verbatim>\<open>ok\<close> flag.\<close>

definition lookup_key :: "('k, 'b) pkg \<Rightarrow> string \<Rightarrow> 'k option" where
  "lookup_key s n = map_of (KeyMap s) n"

text \<open>\<^verbatim>\<open>hotkey.KeyMap[n] = k\<close> in a package that imports this one. Line 159
  declares \<^verbatim>\<open>KeyMap\<close> with \<^verbatim>\<open>var\<close> and an exported name, and a Go map is a
  reference to a table that can be written; so the statement compiles wherever
  the variable is visible, as it is in \<^verbatim>\<open>hotkey_test.go\<close>, which reads
  \<^verbatim>\<open>hotkey.KeyMap\<close> from the package \<^verbatim>\<open>hotkey_test\<close>. The entry for \<open>n\<close> is
  replaced, or added when there is none.\<close>

definition KeyMap_assign :: "string \<Rightarrow> 'k \<Rightarrow> ('k, 'b) pkg \<Rightarrow> ('k, 'b) pkg" where
  "KeyMap_assign n k s = s\<lparr>KeyMap := (n, k) # filter (\<lambda>e. fst e \<noteq> n) (KeyMap s)\<rparr>"

subsection \<open>Histories of one Hotkey\<close>

text \<open>What happens to a Hotkey between \<^verbatim>\<open>New\<close> and its finalizer: calls of its
  methods by the application, a consumer receiving on some channel, a worker
  taking its closed branch, and the two callbacks. Modelled from the spec: the
  callbacks that \<^verbatim>\<open>register\<close> binds, which are in the platform files; on key-down
  the callback sends an \<^verbatim>\<open>Event\<close> on the key-down producer handle, on key-up on
  the key-up producer handle; the handle is the current value of the field.\<close>

datatype op =
    CallRegister | CallUnregister | CallKeydown | CallKeyup | CallString
  | FireKeydown | FireKeyup
  | ConsumerRecv nat | WorkerObserve nat

text \<open>One step of the channel at index \<open>i\<close>. A handle that refers to no channel
  is \<^verbatim>\<open>nil\<close>: sending and receiving on it block for ever.\<close>

definition chan_step :: "nat \<Rightarrow> Event action \<Rightarrow> ('k, 'b) pkg \<Rightarrow> ('k, 'b) pkg outcome" where
  "chan_step i a s =
     (if i < length (chans s)
      then and_then (step a (chans s ! i)) (\<lambda>(xs, c). Done (s\<lparr>chans := (chans s)[i := c]\<rparr>))
      else Blocked)"

fun apply_op ::
  "('m, 'k, 'p, 'b) platform \<Rightarrow> op \<Rightarrow> ('m, 'k, 'p) Hotkey \<times> ('k, 'b) pkg
     \<Rightarrow> (('m, 'k, 'p) Hotkey \<times> ('k, 'b) pkg) outcome" where
  "apply_op P CallRegister (hk, s) = Done (snd (Register P hk s))"
| "apply_op P CallUnregister (hk, s) = and_then (Unregister P hk s) (\<lambda>r. Done (snd r))"
| "apply_op P CallKeydown (hk, s) = Done (hk, s)"
| "apply_op P CallKeyup (hk, s) = Done (hk, s)"
| "apply_op P CallString (hk, s) = Done (hk, s)"
| "apply_op P FireKeydown (hk, s) = and_then (chan_step (keydownIn hk) (Send Event) s) (\<lambda>s'. Done (hk, s'))"
| "apply_op P FireKeyup (hk, s) = and_then (chan_step (keyupIn hk) (Send Event) s) (\<lambda>s'. Done (hk, s'))"
| "apply_op P (ConsumerRecv i) (hk, s) = and_then (chan_step i Recv s) (\<lambda>s'. Done (hk, s'))"
| "apply_op P (WorkerObserve i) (hk, s) = and_then (chan_step i Observe s) (\<lambda>s'. Done (hk, s'))"

fun run ::
  "('m, 'k, 'p, 'b) platform \<Rightarrow> op list \<Rightarrow> ('m, 'k, 'p) Hotkey \<times> ('k, 'b) pkg
     \<Rightarrow> (('m, 'k, 'p) Hotkey \<times> ('k, 'b) pkg) outcome" where
  "run P [] st = Done st"
| "run P (a # as) st = and_then (apply_op P a st) (run P as)"

text \<open>What the methods rely on between calls: the four handles refer to two
  different channels of the store, whose producer sides are open.\<close>

definition hk_ok :: "('m, 'k, 'p) Hotkey \<Rightarrow> ('k, 'b) pkg \<Rightarrow> bool" where
  "hk_ok hk s =
     (keydownIn hk < length (chans s) \<and> keyupIn hk < length (chans s)
      \<and> keydownOut hk = keydownIn hk \<and> keyupOut hk = keyupIn hk
      \<and> keydownIn hk \<noteq> keyupIn hk
      \<and> \<not> in_closed (chans s ! keydownIn hk) \<and> \<not> in_closed (chans s ! keyupIn hk)
      \<and> chan_inv (chans s ! keydownIn hk) \<and> chan_inv (chans s ! keyupIn hk))"

section \<open>The registration backend, from the specification\<close>

text \<open>
  Modelled from the spec: the platform methods \<^verbatim>\<open>register\<close> and \<^verbatim>\<open>unregister\<close> of
  \<^verbatim>\<open>Hotkey\<close>, which the sources at hand do not contain. The specification gives the
  backend as \<^verbatim>\<open>backend.register(modifiers, key, onKeydown, onKeyup) -> token | error\<close>
  and \<^verbatim>\<open>backend.unregister(token) -> error | success\<close>, the \<^verbatim>\<open>platformHandle\<close> as a
  token that is absent while unregistered, and the transitions: registering an
  unregistered Hotkey obtains a token or fails and stays unregistered;
  registering a registered one releases its token and obtains a fresh one;
  unregistering releases the token. The two backend calls are parameters. The
  backend state counts the calls, as the test stub of the specification does.
  Where the specification is silent the model adds nothing of its own: the error
  of \<^verbatim>\<open>unregister\<close> on a Hotkey without token is the parameter \<open>not_registered\<close>,
  and a backend error during re-registration is passed on as it is.
\<close>

record ('m, 'k, 'x) backend_ops =
  backend_register :: "'m list \<Rightarrow> 'k \<Rightarrow> 'x \<Rightarrow> error + (nat \<times> 'x)"
  backend_unregister :: "nat \<Rightarrow> 'x \<Rightarrow> error option \<times> 'x"
  not_registered :: "error option"

record 'x stub =
  inner :: 'x
  register_calls :: nat
  unregister_calls :: "nat list"

definition acquire ::
  "('m, 'k, 'x) backend_ops \<Rightarrow> ('m, 'k, nat option) Hotkey \<Rightarrow> 'x stub
     \<Rightarrow> error option \<times> nat option \<times> 'x stub" where
  "acquire B hk b =
     (case backend_register B (mods hk) (key hk) (inner b) of
        Inl e \<Rightarrow> (Some e, None, b\<lparr>register_calls := Suc (register_calls b)\<rparr>)
      | Inr (t, x) \<Rightarrow> (None, Some t, b\<lparr>inner := x, register_calls := Suc (register_calls b)\<rparr>))"

definition release ::
  "('m, 'k, 'x) backend_ops \<Rightarrow> nat \<Rightarrow> 'x stub \<Rightarrow> error option \<times> 'x stub" where
  "release B t b =
     (case backend_unregister B t (inner b) of
        (err, x) \<Rightarrow> (err, b\<lparr>inner := x, unregister_calls := unregister_calls b @ [t]\<rparr>))"

definition spec_register ::
  "('m, 'k, 'x) backend_ops \<Rightarrow> ('m, 'k, nat option) Hotkey \<Rightarrow> 'x stub
     \<Rightarrow> error option \<times> nat option \<times> 'x stub" where
  "spec_register B hk b =
     (case platformHotkey hk of
        None \<Rightarrow> acquire B hk b
      | Some old \<Rightarrow>
          (case release B old b of
             (Some e, b') \<Rightarrow> (Some e, Some old, b')
           | (None, b') \<Rightarrow> acquire B hk b'))"

definition spec_unregister ::
  "('m, 'k, 'x) backend_ops \<Rightarrow> ('m, 'k, nat option) Hotkey \<Rightarrow> 'x stub
     \<Rightarrow> error option \<times> nat option \<times> 'x stub" where
  "spec_unregister B hk b =
     (case platformHotkey hk of
        None \<Rightarrow> (not_registered B, None, b)
      | Some t \<Rightarrow>
          (case release B t b of
             (Some e, b') \<Rightarrow> (Some e, Some t, b')
           | (None, b') \<Rightarrow> (None, None, b')))"

definition spec_platform ::
  "('m, 'k, 'x) backend_ops \<Rightarrow> ('m, 'k, nat option, 'x stub) platform" where
  "spec_platform B = \<lparr>register = spec_register B, unregister = spec_unregister B\<rparr>"

text \<open>The store after the two \<^verbatim>\<open>close\<close> calls of \<^verbatim>\<open>Unregister\<close> and of the
  finalizer.\<close>

definition closed_both :: "('m, 'k, 'p) Hotkey \<Rightarrow> Event EventChan list \<Rightarrow> Event EventChan list" where
  "closed_both hk cs =
     cs[keydownIn hk := (cs ! keydownIn hk)\<lparr>in_closed := True\<rparr>,
        keyupIn hk := (cs ! keyupIn hk)\<lparr>in_closed := True\<rparr>]"

section \<open>Examples\<close>

text \<open>A platform and a backend to run the definitions on. The platform keeps a
  flag, refuses to register twice and to unregister what is not registered, and
  counts the registrations. The backend hands out its counter as token and
  refuses the key \<open>0\<close>.\<close>

definition flag_platform :: "('m, 'k, bool, nat) platform" where
  "flag_platform =
     \<lparr>register = (\<lambda>hk n. if platformHotkey hk then (Some ''hotkey already registered'', True, n)
                          else (None, True, Suc n)),
      unregister = (\<lambda>hk n. if platformHotkey hk then (None, False, n)
                            else (Some ''hotkey is not registered'', False, n))\<rparr>"

definition counting_backend :: "('m, nat, nat) backend_ops" where
  "counting_backend =
     \<lparr>backend_register = (\<lambda>ms k x. if k = 0 then Inl ''invalid key'' else Inr (x, Suc x)),
      backend_unregister = (\<lambda>t x. (None, x)),
      not_registered = Some ''hotkey is not registered''\<rparr>"

definition flag_start :: "(nat, nat, bool) Hotkey \<times> (nat, nat) pkg" where
  "flag_start = New [1, 2] 3 False \<lparr>chans = [], backend = 0, KeyMap = []\<rparr>"

definition spec_start :: "(nat, nat, nat option) Hotkey \<times> (nat, nat stub) pkg" where
  "spec_start =
     New [1, 2] 3 None
       \<lparr>chans = [], backend = \<lparr>inner = 0, register_calls = 0, unregister_calls = []\<rparr>, KeyMap = []\<rparr>"


text \<open>The states reached from these by the histories used below.\<close>

definition flag_fired :: "(nat, nat, bool) Hotkey \<times> (nat, nat) pkg" where
  "flag_fired =
     (\<lparr>platformHotkey = True, mods = [1, 2], key = 3,
       keydownIn = 0, keydownOut = 0, keyupIn = 1, keyupOut = 1\<rparr>,
      \<lparr>chans = [\<lparr>worker = InnerSelect [Event], in_closed = False\<rparr>,
                \<lparr>worker = InnerSelect [Event], in_closed = False\<rparr>],
       backend = 1, KeyMap = []\<rparr>)"

definition spec_fired :: "(nat, nat, nat option) Hotkey \<times> (nat, nat stub) pkg" where
  "spec_fired =
     (\<lparr>platformHotkey = Some 0, mods = [1, 2], key = 3,
       keydownIn = 0, keydownOut = 0, keyupIn = 1, keyupOut = 1\<rparr>,
      \<lparr>chans = [\<lparr>worker = InnerSelect [Event], in_closed = False\<rparr>,
                \<lparr>worker = OuterRecv [], in_closed = False\<rparr>],
       backend = \<lparr>inner = 1, register_calls = 1, unregister_calls = []\<rparr>, KeyMap = []\<rparr>)"


definition spec_unregistered :: "(nat, nat, nat option) Hotkey \<times> (nat, nat stub) pkg" where
  "spec_unregistered =
     (\<lparr>platformHotkey = None, mods = [1, 2], key = 3,
       keydownIn = 2, keydownOut = 2, keyupIn = 3, keyupOut = 3\<rparr>,
      \<lparr>chans = [\<lparr>worker = InnerSelect [Event], in_closed = True\<rparr>,
                \<lparr>worker = OuterRecv [], in_closed = True\<rparr>,
                \<lparr>worker = OuterRecv [], in_closed = False\<rparr>,
                \<lparr>worker = OuterRecv [], in_closed = False\<rparr>],
       backend = \<lparr>inner = 1, register_calls = 1, unregister_calls = [0]\<rparr>, KeyMap = []\<rparr>)"

section \<open>Properties of the event channel\<close>

lemma inner_loop_pending [simp]: "pending (inner_loop q) = q"
  by (simp add: inner_loop_def)

lemma drain_loop_pending [simp]: "pending (drain_loop q) = q"
  by (simp add: drain_loop_def split: list.splits)

lemma send_Done:
  assumes "chan_inv c" and "send e c = Done c'"
  shows "chan_inv c' \<and> pending (worker c') = pending (worker c) @ [e] \<and> \<not> in_closed c \<and> \<not> in_closed c' \<and> worker c \<noteq> Returned"
  using assms by (cases "worker c") (auto simp: chan_inv_def send_def inner_loop_def split: if_splits)

lemma close_in_Done:
  assumes "chan_inv c" and "close_in c = Done c'"
  shows "chan_inv c' \<and> worker c' = worker c \<and> in_closed c' \<and> worker c \<noteq> Returned"
  using assms by (cases "worker c") (auto simp: chan_inv_def close_in_def split: if_splits)

lemma observe_Done:
  assumes "chan_inv c" and "observe c = Done c'"
  shows "chan_inv c' \<and> pending (worker c') = pending (worker c) \<and> in_closed c' \<and> worker c \<noteq> Returned"
  using assms by (cases "worker c") (auto simp: chan_inv_def observe_def drain_loop_def split: if_splits list.splits)

lemma recv_Done:
  assumes "chan_inv c" and "recv c = Done (x, c')"
  shows "chan_inv c' \<and> pending (worker c) = events [x] @ pending (worker c') \<and> in_closed c' = in_closed c
       \<and> (x = ClosedInd \<longleftrightarrow> worker c = Returned) \<and> (worker c = Returned \<longrightarrow> c' = c)"
proof (cases "worker c")
  case (OuterRecv q)
  with assms show ?thesis by (simp add: chan_inv_def recv_def)
next
  case (InnerSelect q)
  with assms show ?thesis
    by (cases q) (auto simp: chan_inv_def recv_def inner_loop_def split: if_splits)
next
  case (DrainSend es)
  with assms show ?thesis
    by (cases es) (auto simp: chan_inv_def recv_def drain_loop_def split: if_splits list.splits)
next
  case Returned
  with assms show ?thesis by (auto simp: chan_inv_def recv_def)
qed

lemma step_Done:
  assumes "chan_inv c" and "step a c = Done (xs, c')"
  shows "chan_inv c'"
    and "pending (worker c) @ sends [a] = events xs @ pending (worker c')"
    and "in_closed c \<Longrightarrow> in_closed c' \<and> sends [a] = []"
    and "worker c = Returned \<Longrightarrow> xs = [ClosedInd] \<and> c' = c"
    and "ClosedInd \<in> set xs \<Longrightarrow> worker c = Returned"
    and "length xs = count_list [a] Recv"
proof -
  have "chan_inv c' \<and> pending (worker c) @ sends [a] = events xs @ pending (worker c')
      \<and> (in_closed c \<longrightarrow> in_closed c' \<and> sends [a] = [])
      \<and> (worker c = Returned \<longrightarrow> xs = [ClosedInd] \<and> c' = c)
      \<and> (ClosedInd \<in> set xs \<longrightarrow> worker c = Returned)
      \<and> length xs = count_list [a] Recv"
  proof (cases a)
    case (Send e)
    with assms obtain "send e c = Done c'" and "xs = []"
      by (auto split: outcome.splits)
    with send_Done [OF assms(1), of e c'] Send show ?thesis by auto
  next
    case Close
    with assms obtain "close_in c = Done c'" and "xs = []"
      by (auto split: outcome.splits)
    with close_in_Done [OF assms(1), of c'] Close show ?thesis
      by (auto simp: close_in_def split: if_splits)
  next
    case Recv
    with assms obtain x where "recv c = Done (x, c')" and "xs = [x]"
      by (auto split: outcome.splits)
    with recv_Done [OF assms(1), of x c'] Recv show ?thesis by auto
  next
    case Observe
    with assms obtain "observe c = Done c'" and "xs = []"
      by (auto split: outcome.splits)
    with observe_Done [OF assms(1), of c'] Observe show ?thesis by auto
  qed
  then show "chan_inv c'"
    and "pending (worker c) @ sends [a] = events xs @ pending (worker c')"
    and "in_closed c \<Longrightarrow> in_closed c' \<and> sends [a] = []"
    and "worker c = Returned \<Longrightarrow> xs = [ClosedInd] \<and> c' = c"
    and "ClosedInd \<in> set xs \<Longrightarrow> worker c = Returned"
    and "length xs = count_list [a] Recv"
    by blast+
qed

lemma exec_Cons_Done:
  assumes "exec (a # as) c = Done (os, c'')"
  obtains xs c' ys where "step a c = Done (xs, c')" and "exec as c' = Done (ys, c'')" and "os = xs @ ys"
  using assms by (auto split: outcome.splits)

lemma sends_Cons: "sends (a # as) = sends [a] @ sends as"
  by (cases a) simp_all

lemma events_append [simp]: "events (xs @ ys) = events xs @ events ys"
  by (induction xs rule: events.induct) simp_all

lemma events_replicate [simp]: "events (replicate n ClosedInd) = []"
  by (induction n) simp_all

lemma exec_inv:
  "chan_inv c \<Longrightarrow> exec as c = Done (os, c') \<Longrightarrow> chan_inv c'"
proof (induction as arbitrary: c os)
  case Nil
  then show ?case by auto
next
  case (Cons a as)
  from Cons.prems(2) obtain xs c1 ys where
    s: "step a c = Done (xs, c1)" and e: "exec as c1 = Done (ys, c')"
    by (rule exec_Cons_Done)
  from step_Done(1) [OF Cons.prems(1) s] e show ?case by (rule Cons.IH)
qed

lemma exec_fifo:
  "chan_inv c \<Longrightarrow> exec as c = Done (os, c') \<Longrightarrow>
     pending (worker c) @ sends as = events os @ pending (worker c')"
proof (induction as arbitrary: c os)
  case Nil
  then show ?case by simp
next
  case (Cons a as)
  from Cons.prems(2) obtain xs c1 ys where
    s: "step a c = Done (xs, c1)" and e: "exec as c1 = Done (ys, c')" and os: "os = xs @ ys"
    by (rule exec_Cons_Done)
  have "pending (worker c1) @ sends as = events ys @ pending (worker c')"
    using step_Done(1) [OF Cons.prems(1) s] e by (rule Cons.IH)
  moreover have "pending (worker c) @ sends [a] = events xs @ pending (worker c1)"
    by (rule step_Done(2) [OF Cons.prems(1) s])
  ultimately have "(pending (worker c) @ sends [a]) @ sends as
      = events xs @ (events ys @ pending (worker c'))"
    by simp
  then show ?case
    by (subst sends_Cons) (simp add: os)
qed

lemma exec_closed:
  "chan_inv c \<Longrightarrow> in_closed c \<Longrightarrow> exec as c = Done (os, c') \<Longrightarrow> in_closed c' \<and> sends as = []"
proof (induction as arbitrary: c os)
  case Nil
  then show ?case by simp
next
  case (Cons a as)
  from Cons.prems(3) obtain xs c1 ys where
    s: "step a c = Done (xs, c1)" and e: "exec as c1 = Done (ys, c')"
    by (rule exec_Cons_Done)
  from step_Done(3) [OF Cons.prems(1) s Cons.prems(2)]
  have c1: "in_closed c1" and a: "sends [a] = []" by simp_all
  from Cons.IH [OF step_Done(1) [OF Cons.prems(1) s] c1 e] a
  show ?case by (subst sends_Cons) simp
qed

lemma exec_Returned:
  "chan_inv c \<Longrightarrow> worker c = Returned \<Longrightarrow> exec as c = Done (os, c') \<Longrightarrow>
     c' = c \<and> os = replicate (length os) ClosedInd"
proof (induction as arbitrary: os)
  case Nil
  then show ?case by simp
next
  case (Cons a as)
  from Cons.prems(3) obtain xs c1 ys where
    s: "step a c = Done (xs, c1)" and e: "exec as c1 = Done (ys, c')" and os: "os = xs @ ys"
    by (rule exec_Cons_Done)
  from step_Done(4) [OF Cons.prems(1) s Cons.prems(2)]
  have xs: "xs = [ClosedInd]" and c1: "c1 = c" by simp_all
  from Cons.IH [OF Cons.prems(1,2)] e c1
  have "c' = c" and "ys = replicate (length ys) ClosedInd" by simp_all
  then show ?case using xs os by simp
qed

lemma exec_shape:
  "chan_inv c \<Longrightarrow> exec as c = Done (os, c') \<Longrightarrow>
     os = map Ev (events os) @ replicate (length os - length (events os)) ClosedInd
     \<and> (ClosedInd \<in> set os \<longrightarrow> worker c' = Returned)"
proof (induction as arbitrary: c os)
  case Nil
  then show ?case by simp
next
  case (Cons a as)
  from Cons.prems(2) obtain xs c1 ys where
    s: "step a c = Done (xs, c1)" and e: "exec as c1 = Done (ys, c')" and os: "os = xs @ ys"
    by (rule exec_Cons_Done)
  note inv1 = step_Done(1) [OF Cons.prems(1) s]
  note ih = Cons.IH [OF inv1 e]
  show ?case
  proof (cases "ClosedInd \<in> set xs")
    case True
    then have r: "worker c = Returned" by (rule step_Done(5) [OF Cons.prems(1) s])
    from step_Done(4) [OF Cons.prems(1) s r]
    have xs: "xs = [ClosedInd]" and c1: "c1 = c" by simp_all
    from exec_Returned [OF Cons.prems(1) r] e c1
    have "c' = c" and ys: "ys = replicate (length ys) ClosedInd" by simp_all
    obtain n where n: "ys = replicate n ClosedInd" using ys ..
    with xs os r \<open>c' = c\<close> show ?thesis
      by simp
  next
    case False
    from step_Done(6) [OF Cons.prems(1) s] have "length xs \<le> 1" by simp
    with False have xs: "xs = map Ev (events xs)"
      by (cases xs rule: events.cases) auto
    have len: "length (events xs) = length xs"
      by (subst (2) xs) simp
    define k where "k = length ys - length (events ys)"
    from ih have ys: "ys = map Ev (events ys) @ replicate k ClosedInd"
      and r: "ClosedInd \<in> set ys \<longrightarrow> worker c' = Returned" by (simp_all add: k_def)
    have k: "length os - length (events os) = k"
      by (simp add: os len k_def)
    have "map Ev (events os) @ replicate k ClosedInd
        = map Ev (events xs) @ (map Ev (events ys) @ replicate k ClosedInd)"
      by (simp add: os)
    also have "\<dots> = xs @ ys"
      by (simp flip: xs ys)
    finally have "map Ev (events os) @ replicate k ClosedInd = os"
      by (simp only: os)
    then have "os = map Ev (events os) @ replicate (length os - length (events os)) ClosedInd"
      by (simp only: k)
    moreover have "ClosedInd \<in> set os \<longrightarrow> worker c' = Returned"
      using False r by (simp add: os)
    ultimately show ?thesis ..
  qed
qed

lemma exec_count:
  "chan_inv c \<Longrightarrow> exec as c = Done (os, c') \<Longrightarrow> length os = count_list as Recv"
proof (induction as arbitrary: c os)
  case Nil
  then show ?case by simp
next
  case (Cons a as)
  from Cons.prems(2) obtain xs c1 ys where
    s: "step a c = Done (xs, c1)" and e: "exec as c1 = Done (ys, c')" and os: "os = xs @ ys"
    by (rule exec_Cons_Done)
  from Cons.IH [OF step_Done(1) [OF Cons.prems(1) s] e] step_Done(6) [OF Cons.prems(1) s] os
  show ?case by simp
qed

lemma exec_append:
  "exec (as @ bs) c =
     (case exec as c of
        Done (xs, c') \<Rightarrow>
          (case exec bs c' of Done (ys, c'') \<Rightarrow> Done (xs @ ys, c'') | Blocked \<Rightarrow> Blocked | Panic f \<Rightarrow> Panic f)
      | Blocked \<Rightarrow> Blocked
      | Panic f \<Rightarrow> Panic f)"
proof (induction as arbitrary: c)
  case Nil
  show ?case by (simp split: outcome.splits)
next
  case (Cons a as)
  show ?case
    by (cases "step a c") (auto simp: Cons.IH split: outcome.splits)
qed

lemma chan_inv_new: "chan_inv newEventChan"
  by (simp add: chan_inv_def newEventChan_def)

lemma send_open:
  assumes "chan_inv c" and "\<not> in_closed c"
  shows "send e c = Done (c\<lparr>worker := inner_loop (pending (worker c) @ [e])\<rparr>)"
  using assms by (cases "worker c") (simp_all add: chan_inv_def send_def)

lemma inner_loop_id:
  assumes "chan_inv c" and "\<not> in_closed c"
  shows "c\<lparr>worker := inner_loop (pending (worker c))\<rparr> = c"
  using assms by (cases "worker c") (simp_all add: chan_inv_def inner_loop_def)

lemma chan_inv_inner: "chan_inv (c\<lparr>worker := inner_loop q\<rparr>)"
  by (simp add: chan_inv_def inner_loop_def)

lemma exec_sends:
  assumes "chan_inv c" and "\<not> in_closed c"
  shows "exec (map Send xs) c = Done ([], c\<lparr>worker := inner_loop (pending (worker c) @ xs)\<rparr>)"
  using assms
proof (induction xs arbitrary: c)
  case Nil
  then show ?case by (simp add: inner_loop_id)
next
  case (Cons x xs)
  let ?c = "c\<lparr>worker := inner_loop (pending (worker c) @ [x])\<rparr>"
  have "exec (map Send xs) ?c = Done ([], ?c\<lparr>worker := inner_loop (pending (worker ?c) @ xs)\<rparr>)"
    by (rule Cons.IH) (simp_all add: chan_inv_inner Cons.prems)
  then show ?case
    by (simp add: send_open [OF Cons.prems])
qed

lemma exec_drain:
  "exec (replicate (Suc (length es)) Recv) \<lparr>worker = drain_loop es, in_closed = True\<rparr>
     = Done (map Ev es @ [ClosedInd], \<lparr>worker = Returned, in_closed = True\<rparr>)"
proof (induction es)
  case Nil
  show ?case by (simp add: drain_loop_def recv_def)
next
  case (Cons e es)
  have "recv \<lparr>worker = drain_loop (e # es), in_closed = True\<rparr>
      = Done (Ev e, \<lparr>worker = drain_loop es, in_closed = True\<rparr>)"
    by (simp add: drain_loop_def recv_def)
  with Cons.IH show ?case by simp
qed

lemma observe_after_close:
  "observe \<lparr>worker = inner_loop xs, in_closed = True\<rparr> = Done \<lparr>worker = drain_loop xs, in_closed = True\<rparr>"
  by (cases xs) (simp_all add: observe_def inner_loop_def drain_loop_def)

lemma exec_sends_close:
  "exec (map Send xs @ [Close]) newEventChan = Done ([], \<lparr>worker = inner_loop xs, in_closed = True\<rparr>)"
proof -
  have "exec (map Send xs) (newEventChan :: 'a EventChan) = Done ([], \<lparr>worker = inner_loop xs, in_closed = False\<rparr>)"
    using exec_sends [OF chan_inv_new, of xs] by (simp add: newEventChan_def)
  then show ?thesis
    by (simp add: exec_append close_in_def)
qed

lemma receive_after_close:
  assumes "chan_inv c" and "in_closed c"
  shows "\<exists>r. receive c = Done r"
proof (cases "worker c")
  case (OuterRecv q)
  with assms show ?thesis
    by (simp add: chan_inv_def receive_def recv_def observe_def)
next
  case (InnerSelect q)
  with assms show ?thesis
    by (cases q) (simp_all add: chan_inv_def receive_def recv_def)
next
  case (DrainSend es)
  with assms show ?thesis
    by (cases es) (simp_all add: chan_inv_def receive_def recv_def)
next
  case Returned
  then show ?thesis by (simp add: receive_def recv_def)
qed

lemma closed_drain:
  assumes inv: "chan_inv c" and cl: "in_closed c" and ex: "exec rest c = Done (os, c')"
  shows "os = take (length os) (map Ev (pending (worker c)) @ replicate (length os) ClosedInd)"
proof -
  from exec_closed [OF inv cl ex] have "sends rest = []" by simp
  with exec_fifo [OF inv ex] have p: "pending (worker c) = events os @ pending (worker c')" by simp
  define k where "k = length os - length (events os)"
  from exec_shape [OF inv ex]
  have os: "os = map Ev (events os) @ replicate k ClosedInd"
    and r: "ClosedInd \<in> set os \<longrightarrow> worker c' = Returned" by (simp_all add: k_def)
  have len: "length os = length (events os) + k"
    by (subst os) simp
  show ?thesis
  proof (cases "k = 0")
    case True
    with os have o: "os = map Ev (events os)" by simp
    have "take (length os) (map Ev (pending (worker c)) @ replicate (length os) ClosedInd)
        = map Ev (events os)"
      by (subst p) (simp add: len True)
    with o show ?thesis by simp
  next
    case False
    then have "ClosedInd \<in> set (replicate k ClosedInd)" by simp
    then have "ClosedInd \<in> set os" by (subst os) simp
    with r p have p': "pending (worker c) = events os" by simp
    have "take (length os) (map Ev (pending (worker c)) @ replicate (length os) ClosedInd)
        = map Ev (events os) @ replicate k ClosedInd"
      by (simp add: p' len)
    with os show ?thesis by simp
  qed
qed


lemma closed_only_consumer_steps:
  "chan_inv c \<Longrightarrow> in_closed c \<Longrightarrow> exec as c = Done (os, c') \<Longrightarrow> list_all is_consumer_step as"
proof (induction as arbitrary: c os)
  case Nil
  show ?case by simp
next
  case (Cons a as)
  from Cons.prems(3) obtain xs c1 ys where
    s: "step a c = Done (xs, c1)" and e: "exec as c1 = Done (ys, c')"
    by (rule exec_Cons_Done)
  from step_Done(3) [OF Cons.prems(1) s Cons.prems(2)]
  have c1: "in_closed c1" by simp
  have "is_consumer_step a"
    using s Cons.prems(2) by (cases a) (simp_all add: send_def close_in_def)
  with Cons.IH [OF step_Done(1) [OF Cons.prems(1) s] c1 e] show ?case by simp
qed

subsection \<open>The claims about the event channel\<close>

text \<open>
  C1. After \<open>N\<close> sends and the close, the consumer that starts only then observes
  exactly the \<open>N\<close> events, in the order sent, and then the closed-indication.
  First conjunct: the run in which the worker sees the close and the consumer
  receives \<open>N + 1\<close> times completes with exactly these observations, for every
  \<open>N\<close> (also \<open>N = 0\<close>). Second conjunct: whatever happens after the close, in any
  order, what has been observed is an initial part of the \<open>N\<close> events followed by
  closed-indications, one observation per receive; no send or close is among the
  steps; and the consumer's next receive completes, so that nothing queued is
  ever lost or held back.
\<close>

theorem sends_then_close_drains:
  "exec (map Send xs @ [Close, Observe] @ replicate (Suc (length xs)) Recv) newEventChan
     = Done (map Ev xs @ [ClosedInd], \<lparr>worker = Returned, in_closed = True\<rparr>)
   \<and> (exec (map Send xs @ Close # rest) newEventChan = Done (os, c)
      \<longrightarrow> os = take (length os) (map Ev xs @ replicate (length os) ClosedInd)
        \<and> length os = count_list rest Recv
        \<and> list_all is_consumer_step rest
        \<and> (\<exists>r. receive c = Done r))"
proof (intro conjI impI)
  let ?c1 = "\<lparr>worker = inner_loop xs, in_closed = True\<rparr> :: 'a EventChan"
  have c1: "exec (map Send xs @ [Close]) newEventChan = Done ([], ?c1)"
    by (rule exec_sends_close)
  have inv1: "chan_inv ?c1" by (simp add: chan_inv_def inner_loop_def)
  have "exec ((map Send xs @ [Close]) @ Observe # replicate (Suc (length xs)) Recv) newEventChan
      = Done (map Ev xs @ [ClosedInd], \<lparr>worker = Returned, in_closed = True\<rparr>)"
    by (subst exec_append) (simp add: c1 observe_after_close exec_drain del: replicate_Suc replicate.simps)
  then show "exec (map Send xs @ [Close, Observe] @ replicate (Suc (length xs)) Recv) newEventChan
     = Done (map Ev xs @ [ClosedInd], \<lparr>worker = Returned, in_closed = True\<rparr>)"
    by simp
  assume "exec (map Send xs @ Close # rest) newEventChan = Done (os, c)"
  then have "exec ((map Send xs @ [Close]) @ rest) newEventChan = Done (os, c)" by simp
  then have ex: "exec rest ?c1 = Done (os, c)"
    by (subst (asm) exec_append) (simp add: c1 split: outcome.splits)
  from closed_drain [OF inv1 _ ex]
  show "os = take (length os) (map Ev xs @ replicate (length os) ClosedInd)" by simp
  from exec_count [OF inv1 ex] show "length os = count_list rest Recv" .
  from closed_only_consumer_steps [OF inv1 _ ex] show "list_all is_consumer_step rest" by simp
  from exec_closed [OF inv1 _ ex] have "in_closed c" by simp
  with exec_inv [OF inv1 ex] show "\<exists>r. receive c = Done r" by (rule receive_after_close)
qed

theorem sends_then_close_drains_witness:
  "exec (map Send [1, 2, 3 :: nat] @ Close # [Recv, Observe, Recv, Recv, Recv, Recv]) newEventChan
     = Done ([Ev 1, Ev 2, Ev 3, ClosedInd, ClosedInd], \<lparr>worker = Returned, in_closed = True\<rparr>)
   \<and> [Ev 1, Ev 2, Ev 3, ClosedInd, ClosedInd]
       = take 5 (map Ev [1, 2, 3 :: nat] @ replicate 5 ClosedInd)
   \<and> count_list [Recv, Observe, Recv, Recv, Recv, Recv :: nat action] Recv = 5
   \<and> receive \<lparr>worker = Returned, in_closed = True\<rparr>
       = Done (ClosedInd :: nat obs, \<lparr>worker = Returned, in_closed = True\<rparr>)"
proof -
  have h: "exec (map Send [1, 2, 3 :: nat] @ Close # [Recv, Observe, Recv, Recv, Recv, Recv]) newEventChan
     = Done ([Ev 1, Ev 2, Ev 3, ClosedInd, ClosedInd], \<lparr>worker = Returned, in_closed = True\<rparr>)"
    by (simp add: newEventChan_def send_def close_in_def recv_def observe_def
        inner_loop_def drain_loop_def)
  from sends_then_close_drains [of "[1, 2, 3 :: nat]" "[Recv, Observe, Recv, Recv, Recv, Recv]"
      "[Ev 1, Ev 2, Ev 3, ClosedInd, ClosedInd]" "\<lparr>worker = Returned, in_closed = True\<rparr>"] h
  show ?thesis
    by (simp add: receive_def recv_def eval_nat_numeral)
qed

text \<open>
  C2. For every interleaving of sends, receives, the close and the worker's steps
  that can happen, the events observed are, in order, the first of the events
  sent, and the rest of the events sent is what the worker still holds, in
  order. A closed-indication comes after all events only, and only when every
  event sent has been observed.
\<close>

theorem fifo_any_interleaving:
  "exec sched newEventChan = Done (os, c)
   \<longrightarrow> sends sched = events os @ pending (worker c)
     \<and> os = map Ev (events os) @ replicate (length os - length (events os)) ClosedInd
     \<and> (ClosedInd \<in> set os \<longrightarrow> events os = sends sched \<and> out_closed c)"
proof
  assume a: "exec sched newEventChan = Done (os, c)"
  from exec_fifo [OF chan_inv_new a]
  have f: "sends sched = events os @ pending (worker c)" by (simp add: newEventChan_def)
  from exec_shape [OF chan_inv_new a]
  have s: "os = map Ev (events os) @ replicate (length os - length (events os)) ClosedInd"
    and r: "ClosedInd \<in> set os \<longrightarrow> worker c = Returned" by blast+
  from f r have "ClosedInd \<in> set os \<longrightarrow> events os = sends sched \<and> out_closed c"
    by (simp add: out_closed_def)
  with f s show "sends sched = events os @ pending (worker c)
     \<and> os = map Ev (events os) @ replicate (length os - length (events os)) ClosedInd
     \<and> (ClosedInd \<in> set os \<longrightarrow> events os = sends sched \<and> out_closed c)" by blast
qed

theorem fifo_any_interleaving_witness:
  "exec [Send (1 :: nat), Recv, Send 2, Send 3, Recv, Send 4] newEventChan
     = Done ([Ev 1, Ev 2], \<lparr>worker = InnerSelect [3, 4], in_closed = False\<rparr>)
   \<and> sends [Send (1 :: nat), Recv, Send 2, Send 3, Recv, Send 4] = events [Ev 1, Ev 2] @ [3, 4]
   \<and> exec [Send (1 :: nat), Recv, Send 2, Close, Observe, Recv, Recv] newEventChan
     = Done ([Ev 1, Ev 2, ClosedInd], \<lparr>worker = Returned, in_closed = True\<rparr>)
   \<and> ClosedInd \<in> set [Ev (1 :: nat), Ev 2, ClosedInd]
   \<and> events [Ev (1 :: nat), Ev 2, ClosedInd] = sends [Send 1, Recv, Send 2, Close, Observe, Recv, Recv]
   \<and> out_closed \<lparr>worker = Returned :: nat worker, in_closed = True\<rparr>"
proof -
  have h1: "exec [Send (1 :: nat), Recv, Send 2, Send 3, Recv, Send 4] newEventChan
     = Done ([Ev 1, Ev 2], \<lparr>worker = InnerSelect [3, 4], in_closed = False\<rparr>)"
    by (simp add: newEventChan_def send_def recv_def inner_loop_def)
  have h2: "exec [Send (1 :: nat), Recv, Send 2, Close, Observe, Recv, Recv] newEventChan
     = Done ([Ev 1, Ev 2, ClosedInd], \<lparr>worker = Returned, in_closed = True\<rparr>)"
    by (simp add: newEventChan_def send_def close_in_def recv_def observe_def
        inner_loop_def drain_loop_def)
  from fifo_any_interleaving [of "[Send (1 :: nat), Recv, Send 2, Send 3, Recv, Send 4]"
      "[Ev 1, Ev 2]" "\<lparr>worker = InnerSelect [3, 4], in_closed = False\<rparr>"] h1
    fifo_any_interleaving [of "[Send (1 :: nat), Recv, Send 2, Close, Observe, Recv, Recv]"
      "[Ev 1, Ev 2, ClosedInd]" "\<lparr>worker = Returned, in_closed = True\<rparr>"] h2
  show ?thesis by (simp add: out_closed_def)
qed

text \<open>
  C3. A send completes whenever the producer side is open, whatever the worker
  holds and without any step of the consumer. First conjunct: any number of sends
  in a row complete although nothing is ever received, and all events are then
  queued. Second conjunct: in every state the channel can be in after any
  interleaving, with the producer side open, the send is not blocked and not
  refused: the worker takes the event at once and appends it to its queue.
  (Time is not part of the model: that the send waits for the worker goroutine to
  be scheduled, and for nothing else, is what "not blocked" means here.)
\<close>

theorem send_never_waits_for_consumer:
  "exec (map Send xs) newEventChan = Done ([], \<lparr>worker = inner_loop xs, in_closed = False\<rparr>)
   \<and> (exec sched newEventChan = Done (os, c) \<and> \<not> in_closed c
      \<longrightarrow> send e c = Done (c\<lparr>worker := InnerSelect (pending (worker c) @ [e])\<rparr>))"
proof (intro conjI impI)
  show "exec (map Send xs) (newEventChan :: 'a EventChan)
      = Done ([], \<lparr>worker = inner_loop xs, in_closed = False\<rparr>)"
    using exec_sends [OF chan_inv_new, of xs] by (simp add: newEventChan_def)
  assume a: "exec sched newEventChan = Done (os, c) \<and> \<not> in_closed c"
  then have "chan_inv c" using exec_inv [OF chan_inv_new] by blast
  with a show "send e c = Done (c\<lparr>worker := InnerSelect (pending (worker c) @ [e])\<rparr>)"
    by (simp add: send_open inner_loop_def)
qed

theorem send_never_waits_for_consumer_witness:
  "exec [Send (1 :: nat), Send 2, Recv, Send 3] newEventChan
     = Done ([Ev 1], \<lparr>worker = InnerSelect [2, 3], in_closed = False\<rparr>)
   \<and> send 4 \<lparr>worker = InnerSelect [2, 3 :: nat], in_closed = False\<rparr>
     = Done \<lparr>worker = InnerSelect [2, 3, 4], in_closed = False\<rparr>"
proof -
  have h: "exec [Send (1 :: nat), Send 2, Recv, Send 3] newEventChan
     = Done ([Ev 1], \<lparr>worker = InnerSelect [2, 3], in_closed = False\<rparr>)"
    by (simp add: newEventChan_def send_def recv_def inner_loop_def)
  have o: "\<not> in_closed \<lparr>worker = InnerSelect [2, 3 :: nat], in_closed = False\<rparr>"
    by simp
  from send_never_waits_for_consumer [of "[]" "[Send (1 :: nat), Send 2, Recv, Send 3]" "[Ev 1]"
      "\<lparr>worker = InnerSelect [2, 3], in_closed = False\<rparr>" 4] h o
  have "send 4 \<lparr>worker = InnerSelect [2, 3 :: nat], in_closed = False\<rparr>
      = Done (\<lparr>worker = InnerSelect [2, 3], in_closed = False\<rparr>
          \<lparr>worker := InnerSelect (pending (worker \<lparr>worker = InnerSelect [2, 3], in_closed = False\<rparr>) @ [4])\<rparr>)"
    by blast
  then have "send 4 \<lparr>worker = InnerSelect [2, 3 :: nat], in_closed = False\<rparr>
      = Done \<lparr>worker = InnerSelect [2, 3, 4], in_closed = False\<rparr>"
    by simp
  with h show ?thesis ..
qed

section \<open>Properties of the Hotkey\<close>

subsection \<open>The channels of a Hotkey stay open between calls\<close>

lemma close_chan_open:
  assumes "i < length (chans s)" and "\<not> in_closed (chans s ! i)"
  shows "close_chan i s = Done (s\<lparr>chans := (chans s)[i := (chans s ! i)\<lparr>in_closed := True\<rparr>]\<rparr>)"
  using assms by (simp add: close_chan_def close_in_def)


lemma Unregister_fail:
  "unregister P hk (backend s) = (Some e, p, b) \<Longrightarrow>
     Unregister P hk s = Done (Some e, hk\<lparr>platformHotkey := p\<rparr>, s\<lparr>backend := b\<rparr>)"
  by (simp add: Unregister_def)

lemma closed_both_length [simp]: "length (closed_both hk cs) = length cs"
  by (simp add: closed_both_def)

lemma closed_both_nth:
  assumes "hk_ok hk s"
  shows "closed_both hk (chans s) ! keydownIn hk = (chans s ! keydownIn hk)\<lparr>in_closed := True\<rparr>"
    and "closed_both hk (chans s) ! keyupIn hk = (chans s ! keyupIn hk)\<lparr>in_closed := True\<rparr>"
  using assms by (simp_all add: closed_both_def hk_ok_def)

lemma Unregister_ok:
  assumes ok: "hk_ok hk s" and u: "unregister P hk (backend s) = (None, p, b)"
  shows "Unregister P hk s =
     Done (None,
           hk\<lparr>platformHotkey := p,
              keydownIn := length (chans s), keydownOut := length (chans s),
              keyupIn := Suc (length (chans s)), keyupOut := Suc (length (chans s))\<rparr>,
           s\<lparr>backend := b, chans := closed_both hk (chans s) @ [newEventChan, newEventChan]\<rparr>)"
proof -
  let ?s1 = "s\<lparr>backend := b\<rparr>"
  let ?s2 = "?s1\<lparr>chans := (chans s)[keydownIn hk := (chans s ! keydownIn hk)\<lparr>in_closed := True\<rparr>]\<rparr>"
  from ok have c1: "close_chan (keydownIn hk) ?s1 = Done ?s2"
    by (simp add: close_chan_open hk_ok_def)
  from ok have c2: "close_chan (keyupIn hk) ?s2
      = Done (?s1\<lparr>chans := closed_both hk (chans s)\<rparr>)"
    by (simp add: close_chan_open hk_ok_def closed_both_def)
  show ?thesis
    by (simp add: Unregister_def u c1 c2 alloc_EventChan_def)
qed

lemma finalizer_ok:
  assumes ok: "hk_ok hk s" and u: "unregister P hk (backend s) = (err, p, b)"
  shows "finalizer P hk s =
     Done (hk\<lparr>platformHotkey := p\<rparr>, s\<lparr>backend := b, chans := closed_both hk (chans s)\<rparr>)"
proof -
  let ?s1 = "s\<lparr>backend := b\<rparr>"
  let ?s2 = "?s1\<lparr>chans := (chans s)[keydownIn hk := (chans s ! keydownIn hk)\<lparr>in_closed := True\<rparr>]\<rparr>"
  from ok have c1: "close_chan (keydownIn hk) ?s1 = Done ?s2"
    by (simp add: close_chan_open hk_ok_def)
  from ok have c2: "close_chan (keyupIn hk) ?s2
      = Done (?s1\<lparr>chans := closed_both hk (chans s)\<rparr>)"
    by (simp add: close_chan_open hk_ok_def closed_both_def)
  show ?thesis
    by (simp add: finalizer_def u c1 c2)
qed

lemma hk_ok_New: "hk_ok (fst (New ms k p0 s)) (snd (New ms k p0 s))"
  by (simp add: New_def alloc_EventChan_def hk_ok_def nth_append chan_inv_new)
     (simp add: newEventChan_def)

lemma hk_ok_Register:
  assumes "hk_ok hk s"
  shows "hk_ok (fst (snd (Register P hk s))) (snd (snd (Register P hk s)))"
  using assms by (simp add: Register_def hk_ok_def split: prod.splits)

lemma hk_ok_platform:
  "hk_ok hk s \<Longrightarrow> hk_ok (hk\<lparr>platformHotkey := p\<rparr>) (s\<lparr>backend := b\<rparr>)"
  by (simp add: hk_ok_def)

lemma hk_ok_Unregister:
  assumes ok: "hk_ok hk s" and u: "Unregister P hk s = Done (err, hk', s')"
  shows "hk_ok hk' s'"
proof -
  obtain e p b where r: "unregister P hk (backend s) = (e, p, b)"
    by (cases "unregister P hk (backend s)") auto
  show ?thesis
  proof (cases e)
    case None
    with Unregister_ok [OF ok] r u
    have "hk' = hk\<lparr>platformHotkey := p,
              keydownIn := length (chans s), keydownOut := length (chans s),
              keyupIn := Suc (length (chans s)), keyupOut := Suc (length (chans s))\<rparr>"
      and "s' = s\<lparr>backend := b, chans := closed_both hk (chans s) @ [newEventChan, newEventChan]\<rparr>"
      by simp_all
    then show ?thesis
      by (simp add: hk_ok_def nth_append chan_inv_new) (simp add: newEventChan_def)
  next
    case (Some x)
    with Unregister_fail r u have "hk' = hk\<lparr>platformHotkey := p\<rparr>" and "s' = s\<lparr>backend := b\<rparr>"
      by fastforce+
    with ok show ?thesis by (simp add: hk_ok_platform)
  qed
qed

lemma step_open:
  assumes "chan_inv c" and "\<not> in_closed c" and "a \<noteq> Close" and "step a c = Done (xs, c')"
  shows "chan_inv c' \<and> \<not> in_closed c'"
proof (cases a)
  case (Send e)
  with assms(4) have "send e c = Done c'" by (auto split: outcome.splits)
  from send_Done [OF assms(1) this] show ?thesis by simp
next
  case Close
  with assms(3) show ?thesis by simp
next
  case Recv
  with assms(4) obtain x where "recv c = Done (x, c')" by (auto split: outcome.splits)
  from recv_Done [OF assms(1) this] assms(2) show ?thesis by simp
next
  case Observe
  with assms(4) have "observe c = Done c'" by (auto split: outcome.splits)
  with assms(2) show ?thesis by (simp add: observe_def)
qed

lemma chan_step_Done:
  assumes "chan_step i a s = Done s'"
  obtains xs c where "i < length (chans s)" and "step a (chans s ! i) = Done (xs, c)"
    and "s' = s\<lparr>chans := (chans s)[i := c]\<rparr>"
proof -
  from assms have i: "i < length (chans s)"
    by (simp add: chan_step_def split: if_splits)
  with assms obtain xs c where "step a (chans s ! i) = Done (xs, c)"
    and "s' = s\<lparr>chans := (chans s)[i := c]\<rparr>"
    by (cases "step a (chans s ! i)") (auto simp: chan_step_def)
  with i that show ?thesis by blast
qed

lemma hk_ok_chan_step:
  assumes ok: "hk_ok hk s" and a: "a \<noteq> Close" and st: "chan_step i a s = Done s'"
  shows "hk_ok hk s'"
proof -
  from st obtain xs c where i: "i < length (chans s)"
    and c: "step a (chans s ! i) = Done (xs, c)"
    and s': "s' = s\<lparr>chans := (chans s)[i := c]\<rparr>"
    by (rule chan_step_Done)
  have kd: "chan_inv (chans s' ! keydownIn hk) \<and> \<not> in_closed (chans s' ! keydownIn hk)"
  proof (cases "i = keydownIn hk")
    case True
    with ok c a have "chan_inv c \<and> \<not> in_closed c"
      by (intro step_open [of "chans s ! i" a xs c]) (simp_all add: hk_ok_def)
    with True i show ?thesis by (simp add: s')
  next
    case False
    with ok show ?thesis by (simp add: s' hk_ok_def)
  qed
  have ku: "chan_inv (chans s' ! keyupIn hk) \<and> \<not> in_closed (chans s' ! keyupIn hk)"
  proof (cases "i = keyupIn hk")
    case True
    with ok c a have "chan_inv c \<and> \<not> in_closed c"
      by (intro step_open [of "chans s ! i" a xs c]) (simp_all add: hk_ok_def)
    with True i show ?thesis by (simp add: s')
  next
    case False
    with ok show ?thesis by (simp add: s' hk_ok_def)
  qed
  from ok kd ku show ?thesis
    by (simp add: hk_ok_def s')
qed

lemma and_then_Done:
  assumes "and_then r f = Done y"
  obtains x where "r = Done x" and "f x = Done y"
  using assms by (cases r) simp_all

lemma hk_ok_apply_op:
  assumes ok: "hk_ok hk s" and st: "apply_op P a (hk, s) = Done (hk', s')"
  shows "hk_ok hk' s'"
proof (cases a)
  case CallRegister
  with st have "hk' = fst (snd (Register P hk s))" and "s' = snd (snd (Register P hk s))"
    by simp_all
  with ok show ?thesis by (simp add: hk_ok_Register)
next
  case CallUnregister
  with st obtain r where "Unregister P hk s = Done r" and "snd r = (hk', s')"
    by (auto elim: and_then_Done)
  then have "Unregister P hk s = Done (fst r, hk', s')" by (cases r) simp
  with ok show ?thesis by (rule hk_ok_Unregister)
next
  case CallKeydown
  with st ok show ?thesis by simp
next
  case CallKeyup
  with st ok show ?thesis by simp
next
  case CallString
  with st ok show ?thesis by simp
next
  case FireKeydown
  with st have "chan_step (keydownIn hk) (Send Event) s = Done s'" and "hk' = hk"
    by (auto elim: and_then_Done)
  with ok show ?thesis by (simp add: hk_ok_chan_step [of hk s "Send Event"])
next
  case FireKeyup
  with st have "chan_step (keyupIn hk) (Send Event) s = Done s'" and "hk' = hk"
    by (auto elim: and_then_Done)
  with ok show ?thesis by (simp add: hk_ok_chan_step [of hk s "Send Event"])
next
  case (ConsumerRecv i)
  with st have "chan_step i Recv s = Done s'" and "hk' = hk"
    by (auto elim: and_then_Done)
  with ok show ?thesis by (simp add: hk_ok_chan_step [of hk s Recv])
next
  case (WorkerObserve i)
  with st have "chan_step i Observe s = Done s'" and "hk' = hk"
    by (auto elim: and_then_Done)
  with ok show ?thesis by (simp add: hk_ok_chan_step [of hk s Observe])
qed

lemma hk_ok_run:
  "hk_ok (fst st) (snd st) \<Longrightarrow> run P ops st = Done st' \<Longrightarrow> hk_ok (fst st') (snd st')"
proof (induction ops arbitrary: st)
  case Nil
  then show ?case by simp
next
  case (Cons a ops)
  from Cons.prems(2) obtain st1 where a: "apply_op P a st = Done st1" and r: "run P ops st1 = Done st'"
    by (auto elim: and_then_Done)
  from a have "apply_op P a (fst st, snd st) = Done (fst st1, snd st1)" by simp
  with Cons.prems(1) have "hk_ok (fst st1) (snd st1)" by (rule hk_ok_apply_op)
  then show ?case using r by (rule Cons.IH)
qed

lemma hk_ok_reachable:
  assumes "run P ops (New ms k p0 s0) = Done (hk, s)"
  shows "hk_ok hk s"
  using hk_ok_run [OF hk_ok_New assms] by simp

subsection \<open>What the operations leave unchanged\<close>

lemma chan_step_frame:
  "chan_step i a s = Done s' \<Longrightarrow> KeyMap s' = KeyMap s \<and> backend s' = backend s"
  by (erule chan_step_Done) simp

lemma close_chan_frame:
  "close_chan i s = Done s' \<Longrightarrow> KeyMap s' = KeyMap s \<and> backend s' = backend s"
  by (auto simp: close_chan_def split: if_splits elim!: and_then_Done)

lemma New_frame: "KeyMap (snd (New ms k p0 s)) = KeyMap s"
  by (simp add: New_def alloc_EventChan_def)

lemma Register_frame: "KeyMap (snd (snd (Register P hk s))) = KeyMap s"
  by (simp add: Register_def split: prod.splits)

lemma Unregister_frame:
  assumes "Unregister P hk s = Done (err, hk', s')"
  shows "KeyMap s' = KeyMap s"
proof -
  obtain e p b where r: "unregister P hk (backend s) = (e, p, b)"
    by (cases "unregister P hk (backend s)") auto
  show ?thesis
  proof (cases e)
    case None
    with assms r obtain s2 s3 where "close_chan (keydownIn hk) (s\<lparr>backend := b\<rparr>) = Done s2"
      and "close_chan (keyupIn hk) s2 = Done s3"
      and "s' = s3\<lparr>chans := chans s3 @ [newEventChan, newEventChan]\<rparr>"
      by (auto simp: Unregister_def alloc_EventChan_def elim!: and_then_Done)
    then show ?thesis by (auto dest!: close_chan_frame)
  next
    case (Some x)
    with assms r show ?thesis by (auto simp: Unregister_def)
  qed
qed

lemma finalizer_frame:
  assumes "finalizer P hk s = Done (hk', s')"
  shows "KeyMap s' = KeyMap s"
proof -
  obtain e p b where r: "unregister P hk (backend s) = (e, p, b)"
    by (cases "unregister P hk (backend s)") auto
  with assms obtain s2 where "close_chan (keydownIn hk) (s\<lparr>backend := b\<rparr>) = Done s2"
    and "close_chan (keyupIn hk) s2 = Done s'"
    by (auto simp: finalizer_def elim!: and_then_Done)
  then show ?thesis by (auto dest!: close_chan_frame)
qed

lemma apply_op_frame:
  assumes "apply_op P a (hk, s) = Done (hk', s')"
  shows "KeyMap s' = KeyMap s"
proof (cases a)
  case CallRegister
  with assms have "s' = snd (snd (Register P hk s))" by simp
  then show ?thesis by (simp add: Register_frame)
next
  case CallUnregister
  with assms obtain r where "Unregister P hk s = Done r" and "snd r = (hk', s')"
    by (auto elim: and_then_Done)
  then have "Unregister P hk s = Done (fst r, hk', s')" by (cases r) simp
  then show ?thesis by (rule Unregister_frame)
next
  case CallKeydown
  with assms show ?thesis by simp
next
  case CallKeyup
  with assms show ?thesis by simp
next
  case CallString
  with assms show ?thesis by simp
next
  case FireKeydown
  with assms show ?thesis by (auto elim!: and_then_Done dest: chan_step_frame)
next
  case FireKeyup
  with assms show ?thesis by (auto elim!: and_then_Done dest: chan_step_frame)
next
  case (ConsumerRecv i)
  with assms show ?thesis by (auto elim!: and_then_Done dest: chan_step_frame)
next
  case (WorkerObserve i)
  with assms show ?thesis by (auto elim!: and_then_Done dest: chan_step_frame)
qed

lemma run_frame:
  "run P ops st = Done st' \<Longrightarrow> KeyMap (snd st') = KeyMap (snd st)"
proof (induction ops arbitrary: st)
  case Nil
  then show ?case by simp
next
  case (Cons a ops)
  from Cons.prems obtain st1 where a: "apply_op P a st = Done st1" and r: "run P ops st1 = Done st'"
    by (auto elim: and_then_Done)
  from a have "apply_op P a (fst st, snd st) = Done (fst st1, snd st1)" by simp
  then have "KeyMap (snd st1) = KeyMap (snd st)" by (rule apply_op_frame)
  with Cons.IH [OF r] show ?case by simp
qed

subsection \<open>Auxiliary facts\<close>


lemma spec_unregister_log:
  "spec_unregister B hk b = (err, p, b') \<Longrightarrow>
     unregister_calls b' = unregister_calls b @ (case platformHotkey hk of None \<Rightarrow> [] | Some t \<Rightarrow> [t])"
  by (auto simp: spec_unregister_def release_def split: option.splits prod.splits)

lemma spec_unregister_success:
  "spec_unregister B hk b = (None, p, b') \<Longrightarrow> p = None"
  by (auto simp: spec_unregister_def release_def split: option.splits prod.splits)

lemma closed_both_other:
  "i \<noteq> keydownIn hk \<Longrightarrow> i \<noteq> keyupIn hk \<Longrightarrow> closed_both hk cs ! i = cs ! i"
  by (simp add: closed_both_def)

lemma map_of_graph:
  "map_of (map (\<lambda>n. (n, f n)) ns) n = (if n \<in> set ns then Some (f n) else None)"
  by (induction ns) simp_all

lemma map_of_KeyMap_init:
  "map_of (KeyMap_init kc) n = (if n \<in> set key_names then Some (kc n) else None)"
  by (simp only: KeyMap_init_def map_of_graph)

lemma foldl_plus:
  "foldl (\<lambda>s m. s @ ''+'' @ fm m) acc ms = acc @ concat (map (\<lambda>m. ''+'' @ fm m) ms)"
  by (induction ms arbitrary: acc) simp_all

lemmas eval_defs =
  New_def alloc_EventChan_def Register_def Unregister_def finalizer_def chan_step_def
  close_chan_def close_in_def send_def recv_def observe_def inner_loop_def drain_loop_def
  newEventChan_def Keydown_def Keyup_def

lemma flag_run:
  "run flag_platform [CallRegister, FireKeydown, FireKeydown, FireKeyup, ConsumerRecv 0]
     (New [1, 2] 3 False \<lparr>chans = [], backend = 0, KeyMap = []\<rparr>)
   = Done (fst flag_fired, snd flag_fired)"
  by (simp add: flag_platform_def flag_fired_def eval_defs)

lemma spec_run:
  "run (spec_platform counting_backend) [CallRegister, FireKeydown]
     (New [1, 2] 3 None
        \<lparr>chans = [], backend = \<lparr>inner = 0, register_calls = 0, unregister_calls = []\<rparr>, KeyMap = []\<rparr>)
   = Done (fst spec_fired, snd spec_fired)"
  by (simp add: spec_platform_def spec_register_def acquire_def counting_backend_def
      spec_fired_def eval_defs)

subsection \<open>The claims about the Hotkey\<close>






text \<open>
  C6. The finalizer, run on a Hotkey made by \<^verbatim>\<open>New\<close> after any history: it does
  not panic, it calls \<^verbatim>\<open>unregister\<close> once, and both current channels are closed
  on the producer side, their workers keeping what they had queued (first
  conjunct, for every platform). With the backend of the specification the
  finalizer asks the backend to release exactly the token the Hotkey holds, once,
  and nothing when it holds none (second conjunct). After an \<^verbatim>\<open>Unregister\<close> that
  succeeded it releases nothing, closes the two new channels, and leaves the
  channels that \<^verbatim>\<open>Unregister\<close> closed as they are: no channel is closed twice
  (third conjunct).
\<close>

theorem finalizer_cleanup:
  "(run P ops (New ms k p0 s0) = Done (hk, s)
     \<longrightarrow> (\<exists>hk' s'. finalizer P hk s = Done (hk', s')
           \<and> (platformHotkey hk', backend s') = snd (unregister P hk (backend s))
           \<and> keydownIn hk' = keydownIn hk \<and> keyupIn hk' = keyupIn hk
           \<and> in_closed (chans s' ! keydownIn hk) \<and> in_closed (chans s' ! keyupIn hk)
           \<and> worker (chans s' ! keydownIn hk) = worker (chans s ! keydownIn hk)
           \<and> worker (chans s' ! keyupIn hk) = worker (chans s ! keyupIn hk)))
   \<and> (run (spec_platform B) ops1 (New ms1 k1 None s1) = Done (hk2, s2)
     \<longrightarrow> (\<exists>hk' s'. finalizer (spec_platform B) hk2 s2 = Done (hk', s')
           \<and> unregister_calls (backend s')
               = unregister_calls (backend s2)
                 @ (case platformHotkey hk2 of None \<Rightarrow> [] | Some t \<Rightarrow> [t])))
   \<and> (run (spec_platform B) ops1 (New ms1 k1 None s1) = Done (hk2, s2)
       \<and> Unregister (spec_platform B) hk2 s2 = Done (None, hk3, s3)
     \<longrightarrow> (\<exists>hk' s'. finalizer (spec_platform B) hk3 s3 = Done (hk', s')
           \<and> unregister_calls (backend s') = unregister_calls (backend s3)
           \<and> in_closed (chans s' ! keydownIn hk3) \<and> in_closed (chans s' ! keyupIn hk3)
           \<and> chans s' ! keydownIn hk2 = chans s3 ! keydownIn hk2
           \<and> chans s' ! keyupIn hk2 = chans s3 ! keyupIn hk2))"
proof (intro conjI impI)
  assume a: "run P ops (New ms k p0 s0) = Done (hk, s)"
  then have ok: "hk_ok hk s" by (rule hk_ok_reachable)
  obtain err p b where u: "unregister P hk (backend s) = (err, p, b)"
    by (cases "unregister P hk (backend s)") auto
  from finalizer_ok [OF ok u] closed_both_nth [OF ok] u
  show "\<exists>hk' s'. finalizer P hk s = Done (hk', s')
           \<and> (platformHotkey hk', backend s') = snd (unregister P hk (backend s))
           \<and> keydownIn hk' = keydownIn hk \<and> keyupIn hk' = keyupIn hk
           \<and> in_closed (chans s' ! keydownIn hk) \<and> in_closed (chans s' ! keyupIn hk)
           \<and> worker (chans s' ! keydownIn hk) = worker (chans s ! keydownIn hk)
           \<and> worker (chans s' ! keyupIn hk) = worker (chans s ! keyupIn hk)"
    by simp
next
  assume a: "run (spec_platform B) ops1 (New ms1 k1 None s1) = Done (hk2, s2)"
  then have ok: "hk_ok hk2 s2" by (rule hk_ok_reachable)
  obtain err p b where u: "unregister (spec_platform B) hk2 (backend s2) = (err, p, b)"
    by (cases "unregister (spec_platform B) hk2 (backend s2)") auto
  then have "spec_unregister B hk2 (backend s2) = (err, p, b)"
    by (simp add: spec_platform_def)
  from finalizer_ok [OF ok u] spec_unregister_log [OF this]
  show "\<exists>hk' s'. finalizer (spec_platform B) hk2 s2 = Done (hk', s')
           \<and> unregister_calls (backend s')
               = unregister_calls (backend s2)
                 @ (case platformHotkey hk2 of None \<Rightarrow> [] | Some t \<Rightarrow> [t])"
    by simp
next
  assume a: "run (spec_platform B) ops1 (New ms1 k1 None s1) = Done (hk2, s2)
       \<and> Unregister (spec_platform B) hk2 s2 = Done (None, hk3, s3)"
  then have ok: "hk_ok hk2 s2" by (blast intro: hk_ok_reachable)
  with a have ok3: "hk_ok hk3 s3" by (blast intro: hk_ok_Unregister)
  obtain e p b where u: "unregister (spec_platform B) hk2 (backend s2) = (e, p, b)"
    by (cases "unregister (spec_platform B) hk2 (backend s2)") auto
  have e: "e = None"
  proof (cases e)
    case None
    then show ?thesis .
  next
    case (Some x)
    with Unregister_fail [of "spec_platform B" hk2 s2 x p b] u a show ?thesis by simp
  qed
  with u have "spec_unregister B hk2 (backend s2) = (None, p, b)"
    by (simp add: spec_platform_def)
  then have p: "p = None" by (rule spec_unregister_success)
  from Unregister_ok [OF ok u [unfolded e]] a p
  have hk3: "hk3 = hk2\<lparr>platformHotkey := None,
              keydownIn := length (chans s2), keydownOut := length (chans s2),
              keyupIn := Suc (length (chans s2)), keyupOut := Suc (length (chans s2))\<rparr>"
    and s3: "s3 = s2\<lparr>backend := b, chans := closed_both hk2 (chans s2) @ [newEventChan, newEventChan]\<rparr>"
    by simp_all
  obtain err3 p3 b3 where u3: "unregister (spec_platform B) hk3 (backend s3) = (err3, p3, b3)"
    by (cases "unregister (spec_platform B) hk3 (backend s3)") auto
  then have "spec_unregister B hk3 (backend s3) = (err3, p3, b3)"
    by (simp add: spec_platform_def)
  from spec_unregister_log [OF this] hk3
  have log: "unregister_calls b3 = unregister_calls (backend s3)" by simp
  from ok have lt: "keydownIn hk2 < length (chans s2)" "keyupIn hk2 < length (chans s2)"
    by (simp_all add: hk_ok_def)
  have len: "length (chans s3) = Suc (Suc (length (chans s2)))" by (simp add: s3)
  have old: "closed_both hk3 (chans s3) ! keydownIn hk2 = chans s3 ! keydownIn hk2"
    "closed_both hk3 (chans s3) ! keyupIn hk2 = chans s3 ! keyupIn hk2"
    using lt by (simp_all add: closed_both_other hk3)
  from finalizer_ok [OF ok3 u3] closed_both_nth [OF ok3] log old
  show "\<exists>hk' s'. finalizer (spec_platform B) hk3 s3 = Done (hk', s')
           \<and> unregister_calls (backend s') = unregister_calls (backend s3)
           \<and> in_closed (chans s' ! keydownIn hk3) \<and> in_closed (chans s' ! keyupIn hk3)
           \<and> chans s' ! keydownIn hk2 = chans s3 ! keydownIn hk2
           \<and> chans s' ! keyupIn hk2 = chans s3 ! keyupIn hk2"
    by simp
qed

theorem finalizer_cleanup_witness:
  "run flag_platform [CallRegister, FireKeydown, FireKeydown, FireKeyup, ConsumerRecv 0]
     (New [1, 2] 3 False \<lparr>chans = [], backend = 0, KeyMap = []\<rparr>)
     = Done (fst flag_fired, snd flag_fired)
   \<and> finalizer flag_platform (fst flag_fired) (snd flag_fired)
     = Done (\<lparr>platformHotkey = False, mods = [1, 2], key = 3,
              keydownIn = 0, keydownOut = 0, keyupIn = 1, keyupOut = 1\<rparr>,
             \<lparr>chans = [\<lparr>worker = InnerSelect [Event], in_closed = True\<rparr>,
                       \<lparr>worker = InnerSelect [Event], in_closed = True\<rparr>],
              backend = 1, KeyMap = []\<rparr>)
   \<and> run (spec_platform counting_backend) [CallRegister, FireKeydown]
       (New [1, 2] 3 None
          \<lparr>chans = [], backend = \<lparr>inner = 0, register_calls = 0, unregister_calls = []\<rparr>, KeyMap = []\<rparr>)
     = Done (fst spec_fired, snd spec_fired)
   \<and> finalizer (spec_platform counting_backend) (fst spec_fired) (snd spec_fired)
     = Done (\<lparr>platformHotkey = None, mods = [1, 2], key = 3,
              keydownIn = 0, keydownOut = 0, keyupIn = 1, keyupOut = 1\<rparr>,
             \<lparr>chans = [\<lparr>worker = InnerSelect [Event], in_closed = True\<rparr>,
                       \<lparr>worker = OuterRecv [], in_closed = True\<rparr>],
              backend = \<lparr>inner = 1, register_calls = 1, unregister_calls = [0]\<rparr>, KeyMap = []\<rparr>)
   \<and> Unregister (spec_platform counting_backend) (fst spec_fired) (snd spec_fired)
     = Done (None, fst spec_unregistered, snd spec_unregistered)
   \<and> finalizer (spec_platform counting_backend) (fst spec_unregistered) (snd spec_unregistered)
     = Done (fst spec_unregistered,
             \<lparr>chans = [\<lparr>worker = InnerSelect [Event], in_closed = True\<rparr>,
                       \<lparr>worker = OuterRecv [], in_closed = True\<rparr>,
                       \<lparr>worker = OuterRecv [], in_closed = True\<rparr>,
                       \<lparr>worker = OuterRecv [], in_closed = True\<rparr>],
              backend = \<lparr>inner = 1, register_calls = 1, unregister_calls = [0]\<rparr>, KeyMap = []\<rparr>)"
proof -
  have u: "Unregister (spec_platform counting_backend) (fst spec_fired) (snd spec_fired)
     = Done (None, fst spec_unregistered, snd spec_unregistered)"
    by (simp add: spec_platform_def spec_unregister_def release_def counting_backend_def
        spec_fired_def spec_unregistered_def eval_defs)
  from finalizer_cleanup [of flag_platform
      "[CallRegister, FireKeydown, FireKeydown, FireKeyup, ConsumerRecv 0]"
      "[1, 2]" 3 False "\<lparr>chans = [], backend = 0, KeyMap = []\<rparr>"
      "fst flag_fired" "snd flag_fired"
      counting_backend "[CallRegister, FireKeydown]" "[1, 2]" 3
      "\<lparr>chans = [], backend = \<lparr>inner = 0, register_calls = 0, unregister_calls = []\<rparr>, KeyMap = []\<rparr>"
      "fst spec_fired" "snd spec_fired" "fst spec_unregistered" "snd spec_unregistered"]
    flag_run spec_run u
  show ?thesis
    by (simp add: flag_platform_def flag_fired_def spec_platform_def spec_unregister_def
        release_def counting_backend_def spec_fired_def spec_unregistered_def eval_defs)
qed

text \<open>
  C7. \<^verbatim>\<open>Register\<close> returns the error of the platform's \<^verbatim>\<open>register\<close> as it is
  and changes neither modifiers, key, channel fields nor any channel (first
  conjunct, for every platform). With the backend of the specification: on a
  Hotkey without token, when the backend refuses the registration, \<^verbatim>\<open>Register\<close>
  returns that error, the Hotkey is the same as before and still without token,
  and the state outside is as before but for the count of the call.
\<close>

theorem Register_failure_stays_unregistered:
  "(Register P hk s = (err, hk', s')
     \<longrightarrow> err = fst (register P hk (backend s))
       \<and> mods hk' = mods hk \<and> key hk' = key hk
       \<and> keydownIn hk' = keydownIn hk \<and> keydownOut hk' = keydownOut hk
       \<and> keyupIn hk' = keyupIn hk \<and> keyupOut hk' = keyupOut hk
       \<and> chans s' = chans s)
   \<and> (platformHotkey hk1 = None
       \<and> backend_register B (mods hk1) (key hk1) (inner (backend s1)) = Inl e
     \<longrightarrow> Register (spec_platform B) hk1 s1
           = (Some e, hk1,
              s1\<lparr>backend := (backend s1)\<lparr>register_calls := Suc (register_calls (backend s1))\<rparr>\<rparr>))"
proof (rule conjI; rule impI)
  assume "Register P hk s = (err, hk', s')"
  then show "err = fst (register P hk (backend s))
       \<and> mods hk' = mods hk \<and> key hk' = key hk
       \<and> keydownIn hk' = keydownIn hk \<and> keydownOut hk' = keydownOut hk
       \<and> keyupIn hk' = keyupIn hk \<and> keyupOut hk' = keyupOut hk
       \<and> chans s' = chans s"
    by (auto simp: Register_def split: prod.splits)
next
  assume a: "platformHotkey hk1 = None
       \<and> backend_register B (mods hk1) (key hk1) (inner (backend s1)) = Inl e"
  then have "hk1\<lparr>platformHotkey := None\<rparr> = hk1" by simp
  with a show "Register (spec_platform B) hk1 s1
           = (Some e, hk1,
              s1\<lparr>backend := (backend s1)\<lparr>register_calls := Suc (register_calls (backend s1))\<rparr>\<rparr>)"
    by (simp add: Register_def spec_platform_def spec_register_def acquire_def)
qed

theorem Register_failure_stays_unregistered_witness:
  "platformHotkey ((fst spec_start)\<lparr>key := 0\<rparr>) = None
   \<and> backend_register counting_backend [1, 2] 0 (inner (backend (snd spec_start))) = Inl ''invalid key''
   \<and> Register (spec_platform counting_backend) ((fst spec_start)\<lparr>key := 0\<rparr>) (snd spec_start)
     = (Some ''invalid key'', (fst spec_start)\<lparr>key := 0\<rparr>,
        \<lparr>chans = [newEventChan, newEventChan],
         backend = \<lparr>inner = 0, register_calls = 1, unregister_calls = []\<rparr>, KeyMap = []\<rparr>)"
proof -
  have h: "platformHotkey ((fst spec_start)\<lparr>key := 0\<rparr>) = None
      \<and> backend_register counting_backend (mods ((fst spec_start)\<lparr>key := 0\<rparr>))
            (key ((fst spec_start)\<lparr>key := 0\<rparr>)) (inner (backend (snd spec_start)))
          = Inl ''invalid key''"
    by (simp add: spec_start_def counting_backend_def eval_defs)
  from Register_failure_stays_unregistered [where ?hk1.0 = "(fst spec_start)\<lparr>key := 0\<rparr>"
      and B = counting_backend and ?s1.0 = "snd spec_start" and e = "''invalid key''"] h
  show ?thesis
    by (simp add: spec_start_def counting_backend_def spec_platform_def spec_register_def
        acquire_def eval_defs)
qed

text \<open>
  C8. When the platform's \<^verbatim>\<open>unregister\<close> fails, \<^verbatim>\<open>Unregister\<close> returns that
  error and closes nothing: every channel is as before, the four channel fields,
  the modifiers and the key keep their values, \<^verbatim>\<open>Keydown\<close> and \<^verbatim>\<open>Keyup\<close> return
  the same handles, and these are open and usable exactly if they were.
\<close>

theorem Unregister_failure_keeps_channels:
  "unregister P hk (backend s) = (Some e, p, b)
   \<longrightarrow> (\<exists>hk' s'. Unregister P hk s = Done (Some e, hk', s')
         \<and> chans s' = chans s
         \<and> keydownIn hk' = keydownIn hk \<and> keydownOut hk' = keydownOut hk
         \<and> keyupIn hk' = keyupIn hk \<and> keyupOut hk' = keyupOut hk
         \<and> mods hk' = mods hk \<and> key hk' = key hk
         \<and> Keydown hk' = Keydown hk \<and> Keyup hk' = Keyup hk
         \<and> hk_ok hk' s' = hk_ok hk s)"
proof
  assume "unregister P hk (backend s) = (Some e, p, b)"
  then have "Unregister P hk s = Done (Some e, hk\<lparr>platformHotkey := p\<rparr>, s\<lparr>backend := b\<rparr>)"
    by (rule Unregister_fail)
  then show "\<exists>hk' s'. Unregister P hk s = Done (Some e, hk', s')
         \<and> chans s' = chans s
         \<and> keydownIn hk' = keydownIn hk \<and> keydownOut hk' = keydownOut hk
         \<and> keyupIn hk' = keyupIn hk \<and> keyupOut hk' = keyupOut hk
         \<and> mods hk' = mods hk \<and> key hk' = key hk
         \<and> Keydown hk' = Keydown hk \<and> Keyup hk' = Keyup hk
         \<and> hk_ok hk' s' = hk_ok hk s"
    by (simp add: Keydown_def Keyup_def hk_ok_def)
qed

theorem Unregister_failure_keeps_channels_witness:
  "unregister flag_platform (fst flag_start) (backend (snd flag_start))
     = (Some ''hotkey is not registered'', False, 0)
   \<and> Unregister flag_platform (fst flag_start) (snd flag_start)
     = Done (Some ''hotkey is not registered'', fst flag_start, snd flag_start)
   \<and> hk_ok (fst flag_start) (snd flag_start)"
proof -
  have u: "unregister flag_platform (fst flag_start) (backend (snd flag_start))
     = (Some ''hotkey is not registered'', False, 0)"
    by (simp add: flag_platform_def flag_start_def eval_defs)
  have k: "hk_ok (fst flag_start) (snd flag_start)"
    unfolding flag_start_def by (rule hk_ok_New)
  from Unregister_failure_keeps_channels [of flag_platform "fst flag_start" "snd flag_start"
      "''hotkey is not registered''" False 0] u k
  show ?thesis
    by (simp add: flag_platform_def flag_start_def eval_defs)
qed

text \<open>
  C9. \<^verbatim>\<open>String\<close> is the key as printed, followed for each modifier, in the order
  of the list and not sorted, by \<^verbatim>\<open>+\<close> and the modifier as printed. For the
  Hotkey that \<^verbatim>\<open>New\<close> returns the list is the one given to \<^verbatim>\<open>New\<close>; for the
  empty list the result is the key alone.
\<close>

theorem String_key_then_mods_in_order:
  "String fk fm hk = fk (key hk) @ concat (map (\<lambda>m. ''+'' @ fm m) (mods hk))
   \<and> String fk fm (fst (New ms k p0 s)) = fk k @ concat (map (\<lambda>m. ''+'' @ fm m) ms)
   \<and> String fk fm (fst (New [] k p0 s)) = fk k"
  by (simp only: String_def foldl_plus) (simp add: New_def alloc_EventChan_def)

theorem String_key_then_mods_in_order_witness:
  "String (\<lambda>k. ''KeyS'') (\<lambda>m. if m = (0 :: nat) then ''Ctrl'' else ''Shift'')
     (fst (New [1, 0] (31 :: nat) False \<lparr>chans = [], backend = 0 :: nat, KeyMap = []\<rparr>))
   = ''KeyS+Shift+Ctrl''"
proof -
  note String_key_then_mods_in_order [where fk = "\<lambda>k. ''KeyS''"
      and fm = "\<lambda>m. if m = (0 :: nat) then ''Ctrl'' else ''Shift''"
      and ms = "[1, 0]" and k = "31 :: nat" and ?p0.0 = False
      and s = "\<lparr>chans = [], backend = 0 :: nat, KeyMap = []\<rparr>"]
  then have "String (\<lambda>k. ''KeyS'') (\<lambda>m. if m = (0 :: nat) then ''Ctrl'' else ''Shift'')
     (fst (New [1, 0] (31 :: nat) False \<lparr>chans = [], backend = 0 :: nat, KeyMap = []\<rparr>))
   = ''KeyS'' @ concat (map (\<lambda>m. ''+'' @ (if m = (0 :: nat) then ''Ctrl'' else ''Shift'')) [1, 0])"
    by blast
  then show ?thesis by simp
qed

text \<open>
  C10, as amended. \<^verbatim>\<open>KeyMap\<close> is an exported variable that importing code can
  write, as the example after the theorem shows, but no operation of the package
  writes it: \<^verbatim>\<open>New\<close>, \<^verbatim>\<open>newEventChan\<close>, \<^verbatim>\<open>Register\<close>, \<^verbatim>\<open>Unregister\<close>, the
  finalizer and every history of method calls, callbacks and channel steps
  (\<^verbatim>\<open>Keydown\<close>, \<^verbatim>\<open>Keyup\<close> and \<^verbatim>\<open>String\<close> among them) leave the table as it is,
  so a name looked up afterwards gives what it gave before. Starting from the
  initial table and with no write from outside, a look-up gives, at any later
  time, the constant of that name for the names of the table and nothing for
  any other name.
\<close>

theorem KeyMap_never_changed:
  "KeyMap (snd (New ms k p0 s)) = KeyMap s
   \<and> KeyMap (snd (snd (alloc_EventChan s))) = KeyMap s
   \<and> KeyMap (snd (snd (Register P hk s))) = KeyMap s
   \<and> (Unregister P hk s = Done (err, hk1, s1) \<longrightarrow> KeyMap s1 = KeyMap s)
   \<and> (finalizer P hk s = Done (hk2, s2) \<longrightarrow> KeyMap s2 = KeyMap s)
   \<and> (run P ops (hk, s) = Done (hk3, s3)
        \<longrightarrow> KeyMap s3 = KeyMap s \<and> lookup_key s3 n = lookup_key s n)
   \<and> (run P ops (New ms k p0 (init_pkg kc b0)) = Done (hk4, s4)
        \<longrightarrow> KeyMap s4 = KeyMap_init kc
          \<and> lookup_key s4 n = (if n \<in> set key_names then Some (kc n) else None))"
proof (intro conjI impI)
  show "KeyMap (snd (New ms k p0 s)) = KeyMap s" by (rule New_frame)
  show "KeyMap (snd (snd (alloc_EventChan s))) = KeyMap s" by (simp add: alloc_EventChan_def)
  show "KeyMap (snd (snd (Register P hk s))) = KeyMap s" by (rule Register_frame)
next
  assume "Unregister P hk s = Done (err, hk1, s1)"
  then show "KeyMap s1 = KeyMap s" by (rule Unregister_frame)
next
  assume "finalizer P hk s = Done (hk2, s2)"
  then show "KeyMap s2 = KeyMap s" by (rule finalizer_frame)
next
  assume "run P ops (hk, s) = Done (hk3, s3)"
  from run_frame [OF this] show k: "KeyMap s3 = KeyMap s" by simp
  then show "lookup_key s3 n = lookup_key s n" by (simp add: lookup_key_def)
next
  assume "run P ops (New ms k p0 (init_pkg kc b0)) = Done (hk4, s4)"
  from run_frame [OF this] show k: "KeyMap s4 = KeyMap_init kc"
    by (simp add: New_frame init_pkg_def)
  then show "lookup_key s4 n = (if n \<in> set key_names then Some (kc n) else None)"
    by (simp add: lookup_key_def map_of_KeyMap_init)
qed

theorem KeyMap_never_changed_witness:
  "run flag_platform [CallRegister, FireKeydown, CallUnregister, CallString]
     (New [1, 2 :: nat] (3 :: nat) False (init_pkg (\<lambda>n. length n) 0))
     = Done (\<lparr>platformHotkey = False, mods = [1, 2], key = 3,
              keydownIn = 2, keydownOut = 2, keyupIn = 3, keyupOut = 3\<rparr>,
             \<lparr>chans = [\<lparr>worker = InnerSelect [Event], in_closed = True\<rparr>,
                       \<lparr>worker = OuterRecv [], in_closed = True\<rparr>,
                       newEventChan, newEventChan],
              backend = 1, KeyMap = KeyMap_init (\<lambda>n. length n)\<rparr>)
   \<and> lookup_key
        \<lparr>chans = [\<lparr>worker = InnerSelect [Event], in_closed = True\<rparr>,
                  \<lparr>worker = OuterRecv [], in_closed = True\<rparr>,
                  newEventChan, newEventChan],
         backend = 1 :: nat, KeyMap = KeyMap_init (\<lambda>n. length n)\<rparr> ''KeyF1''
     = Some 5"
proof -
  have h: "run flag_platform [CallRegister, FireKeydown, CallUnregister, CallString]
     (New [1, 2 :: nat] (3 :: nat) False (init_pkg (\<lambda>n. length n) 0))
     = Done (\<lparr>platformHotkey = False, mods = [1, 2], key = 3,
              keydownIn = 2, keydownOut = 2, keyupIn = 3, keyupOut = 3\<rparr>,
             \<lparr>chans = [\<lparr>worker = InnerSelect [Event], in_closed = True\<rparr>,
                       \<lparr>worker = OuterRecv [], in_closed = True\<rparr>,
                       newEventChan, newEventChan],
              backend = 1, KeyMap = KeyMap_init (\<lambda>n. length n)\<rparr>)"
    by (simp add: flag_platform_def init_pkg_def eval_defs)
  have k: "''KeyF1'' \<in> set key_names"
    by (simp add: key_names_def)
  from KeyMap_never_changed [where P = flag_platform
      and ops = "[CallRegister, FireKeydown, CallUnregister, CallString]"
      and ms = "[1, 2 :: nat]" and k = "3 :: nat" and ?p0.0 = False and kc = "\<lambda>n. length n" and ?b0.0 = 0
      and ?hk4.0 = "\<lparr>platformHotkey = False, mods = [1, 2], key = 3,
              keydownIn = 2, keydownOut = 2, keyupIn = 3, keyupOut = 3\<rparr>"
      and ?s4.0 = "\<lparr>chans = [\<lparr>worker = InnerSelect [Event], in_closed = True\<rparr>,
                       \<lparr>worker = OuterRecv [], in_closed = True\<rparr>,
                       newEventChan, newEventChan],
              backend = 1, KeyMap = KeyMap_init (\<lambda>n. length n)\<rparr>"
      and n = "''KeyF1''"] h k
  show ?thesis by simp
qed

text \<open>
  C10 as it is stated fails: the table is not read-only. One assignment from an
  importing package, which the declaration of line 159 admits, changes the
  table after its initialisation, and the same name then gives another key.
\<close>

theorem KeyMap_can_be_written:
  "lookup_key (init_pkg length (0 :: nat)) ''KeyA'' = Some 4
   \<and> lookup_key (KeyMap_assign ''KeyA'' 0 (init_pkg length (0 :: nat))) ''KeyA'' = Some 0
   \<and> KeyMap (KeyMap_assign ''KeyA'' 0 (init_pkg length (0 :: nat)))
       \<noteq> KeyMap (init_pkg length (0 :: nat))"
proof -
  have a: "lookup_key (init_pkg length (0 :: nat)) ''KeyA'' = Some 4"
    by (simp add: lookup_key_def init_pkg_def map_of_KeyMap_init key_names_def)
  have b: "lookup_key (KeyMap_assign ''KeyA'' 0 (init_pkg length (0 :: nat))) ''KeyA'' = Some 0"
    by (simp add: lookup_key_def KeyMap_assign_def)
  from a b have "lookup_key (KeyMap_assign ''KeyA'' 0 (init_pkg length (0 :: nat))) ''KeyA''
      \<noteq> lookup_key (init_pkg length (0 :: nat)) ''KeyA''" by simp
  then have "KeyMap (KeyMap_assign ''KeyA'' 0 (init_pkg length (0 :: nat)))
      \<noteq> KeyMap (init_pkg length (0 :: nat))"
    by (auto simp: lookup_key_def)
  with a b show ?thesis by blast
qed

end
